theory Spec2Isabelle
  imports Main "HOL-Library.Word" "HOL-Library.Monad_Syntax" "HOL-Library.AList"
begin

unbundle bit_operations_syntax

section \<open>The hash primitive (util/hash.c)\<close>

text \<open>
  \<^verbatim>\<open>typedef uint32_t ub4; typedef uint8_t ub1;\<close> and \<^verbatim>\<open>size_t\<close> on an LP64 target.
  The key is a pointer into memory. Memory is a partial map from addresses to bytes:
  an address outside every object is unmapped, and reading it is the undefined behaviour
  of the C program, which the model reports as \<open>None\<close>.
\<close>

type_synonym u8 = "8 word"
type_synonym u32 = "32 word"
type_synonym size_t = "64 word"
type_synonym mem = "nat \<Rightarrow> u8 option"
type_synonym abc = "u32 \<times> u32 \<times> u32"

text \<open>The macro \<^verbatim>\<open>mix(a,b,c)\<close>: nine rows of two subtractions and a shifted xor.\<close>

definition mix :: "abc \<Rightarrow> abc" where
  "mix s = (case s of (a, b, c) \<Rightarrow>
     let a = a - b; a = a - c; a = a XOR (drop_bit 13 c);
         b = b - c; b = b - a; b = b XOR (push_bit 8 a);
         c = c - a; c = c - b; c = c XOR (drop_bit 13 b);
         a = a - b; a = a - c; a = a XOR (drop_bit 12 c);
         b = b - c; b = b - a; b = b XOR (push_bit 16 a);
         c = c - a; c = c - b; c = c XOR (drop_bit 5 b);
         a = a - b; a = a - c; a = a XOR (drop_bit 3 c);
         b = b - c; b = b - a; b = b XOR (push_bit 10 a);
         c = c - a; c = c - b; c = c XOR (drop_bit 15 b)
     in (a, b, c))"

text \<open>\<^verbatim>\<open>(ub4)k[i]\<close>: the byte at offset \<open>i\<close> from the pointer \<open>k\<close>, widened to 32 bits.\<close>

definition rd :: "mem \<Rightarrow> nat \<Rightarrow> nat \<Rightarrow> u32 option" where
  "rd m k i = map_option ucast (m (k + i))"

text \<open>\<^verbatim>\<open>k[i] + ((ub4)k[i+1]<<8) + ((ub4)k[i+2]<<16) + ((ub4)k[i+3]<<24)\<close>\<close>

definition word_at :: "mem \<Rightarrow> nat \<Rightarrow> nat \<Rightarrow> u32 option" where
  "word_at m k i = do {
     b0 \<leftarrow> rd m k i;
     b1 \<leftarrow> rd m k (i + 1);
     b2 \<leftarrow> rd m k (i + 2);
     b3 \<leftarrow> rd m k (i + 3);
     Some (b0 + push_bit 8 b1 + push_bit 16 b2 + push_bit 24 b3)
   }"

text \<open>
  \<^verbatim>\<open>while (len >= 12) { a += ...; b += ...; c += ...; mix(a,b,c); k += 12; len -= 12; }\<close>
  The result is the pointer, the remaining length and the accumulators at loop exit.
\<close>

function hash_loop :: "mem \<Rightarrow> nat \<Rightarrow> u32 \<Rightarrow> abc \<Rightarrow> (nat \<times> u32 \<times> abc) option" where
  "hash_loop m k len s =
     (if 12 \<le> len then
        (case s of (a, b, c) \<Rightarrow>
           (case word_at m k 0 of None \<Rightarrow> None | Some w0 \<Rightarrow>
           (case word_at m k 4 of None \<Rightarrow> None | Some w1 \<Rightarrow>
           (case word_at m k 8 of None \<Rightarrow> None | Some w2 \<Rightarrow>
              hash_loop m (k + 12) (len - 12) (mix (a + w0, b + w1, c + w2))))))
      else Some (k, len, s))"
  by pat_completeness auto
termination
proof (relation "measure (\<lambda>(m, k, len, s). unat len)")
  show "wf (measure (\<lambda>(m, k, len, s). unat len))"
    by simp
next
  fix m :: mem and k :: nat and len :: u32 and s :: abc
    and a b c w0 w1 w2 x y
  assume "12 \<le> len"
  then have "unat (len - 12) < unat len"
    by (simp add: word_le_nat_alt unat_sub_if')
  then show "((m, k + 12, len - 12, mix (a + w0, b + w1, c + w2)), (m, k, len, s))
      \<in> measure (\<lambda>(m, k, len, s). unat len)"
    by simp
qed

text \<open>
  The \<^verbatim>\<open>switch(len)\<close> after the loop. \<open>tail_case n\<close> is the statement under the
  label \<^verbatim>\<open>case n:\<close>; every label falls through to the next lower one, and there is
  no \<^verbatim>\<open>default\<close>, so a value outside 1..11 executes nothing.
\<close>

definition tail_case :: "nat \<Rightarrow> mem \<Rightarrow> nat \<Rightarrow> abc \<Rightarrow> abc option" where
  "tail_case n m k s = (case s of (a, b, c) \<Rightarrow>
     if n = 11 then map_option (\<lambda>x. (a, b, c + push_bit 24 x)) (rd m k 10)
     else if n = 10 then map_option (\<lambda>x. (a, b, c + push_bit 16 x)) (rd m k 9)
     else if n = 9 then map_option (\<lambda>x. (a, b, c + push_bit 8 x)) (rd m k 8)
     else if n = 8 then map_option (\<lambda>x. (a, b + push_bit 24 x, c)) (rd m k 7)
     else if n = 7 then map_option (\<lambda>x. (a, b + push_bit 16 x, c)) (rd m k 6)
     else if n = 6 then map_option (\<lambda>x. (a, b + push_bit 8 x, c)) (rd m k 5)
     else if n = 5 then map_option (\<lambda>x. (a, b + x, c)) (rd m k 4)
     else if n = 4 then map_option (\<lambda>x. (a + push_bit 24 x, b, c)) (rd m k 3)
     else if n = 3 then map_option (\<lambda>x. (a + push_bit 16 x, b, c)) (rd m k 2)
     else if n = 2 then map_option (\<lambda>x. (a + push_bit 8 x, b, c)) (rd m k 1)
     else if n = 1 then map_option (\<lambda>x. (a + x, b, c)) (rd m k 0)
     else Some s)"

fun fall_through :: "nat \<Rightarrow> mem \<Rightarrow> nat \<Rightarrow> abc \<Rightarrow> abc option" where
  "fall_through 0 m k s = Some s"
| "fall_through (Suc n) m k s =
     (case tail_case (Suc n) m k s of None \<Rightarrow> None | Some s' \<Rightarrow> fall_through n m k s')"

definition switch_len :: "u32 \<Rightarrow> mem \<Rightarrow> nat \<Rightarrow> abc \<Rightarrow> abc option" where
  "switch_len len m k s =
     (if 1 \<le> len \<and> len \<le> 11 then fall_through (unat len) m k s else Some s)"

text \<open>
  \<^verbatim>\<open>uint32_t hash(uint8_t *k, size_t length, uint32_t initval)\<close>
\<close>

definition hash :: "mem \<Rightarrow> nat \<Rightarrow> size_t \<Rightarrow> u32 \<Rightarrow> u32 option" where
  "hash m k length' initval =
     (let len = (ucast length' :: u32) in
      case hash_loop m k len (0x9e3779b9, 0x9e3779b9, initval) of
        None \<Rightarrow> None
      | Some (k', len', a, b, c) \<Rightarrow>
          (case switch_len len' m k' (a, b, c + ucast length') of
             None \<Rightarrow> None
           | Some s \<Rightarrow> (case mix s of (a, b, c) \<Rightarrow> Some c)))"

declare hash_loop.simps [simp del]

text \<open>
  The \<open>n\<close> bytes of the object at \<open>k\<close>: \<open>None\<close> when one of them is unmapped.
\<close>

fun bytes_at :: "mem \<Rightarrow> nat \<Rightarrow> nat \<Rightarrow> u8 list option" where
  "bytes_at m k 0 = Some []"
| "bytes_at m k (Suc n) =
     (case m k of None \<Rightarrow> None | Some x \<Rightarrow> map_option ((#) x) (bytes_at m (Suc k) n))"

subsection \<open>The hash as section 4.1 of the specification words it\<close>

text \<open>
  A second definition, on the key as a byte sequence, following the sentence of the
  specification: three accumulators seeded from the constant and the seed; every full
  12-byte block adds its three little-endian words and is mixed; the length is added to
  the third accumulator; the remaining 0 to 11 bytes are folded in, from the last one
  down to the first (the order of the \<^verbatim>\<open>case\<close> labels, by remaining length); one last
  mix; the third accumulator is the digest.
\<close>

fun le32 :: "u8 list \<Rightarrow> u32" where
  "le32 [] = 0"
| "le32 (x # xs) = ucast x + push_bit 8 (le32 xs)"

function blocks :: "u8 list \<Rightarrow> abc \<Rightarrow> u8 list \<times> abc" where
  "blocks ks s =
     (if 12 \<le> length ks then
        (case s of (a, b, c) \<Rightarrow>
           blocks (drop 12 ks)
             (mix (a + le32 (take 4 ks), b + le32 (take 4 (drop 4 ks)), c + le32 (take 4 (drop 8 ks)))))
      else (ks, s))"
  by pat_completeness auto
termination
  by (relation "measure (\<lambda>(ks, s). length ks)") auto

declare blocks.simps [simp del]

text \<open>
  The byte at position \<open>i\<close> of the remainder goes to the first accumulator for
  \<open>i < 4\<close>, to the second for \<open>i < 8\<close>, and to the third above, where the lowest byte
  is left to the length.
\<close>

definition fold_byte :: "nat \<times> u8 \<Rightarrow> abc \<Rightarrow> abc" where
  "fold_byte ix s = (case (ix, s) of ((i, x), (a, b, c)) \<Rightarrow>
     if i < 4 then (a + push_bit (8 * i) (ucast x), b, c)
     else if i < 8 then (a, b + push_bit (8 * (i - 4)) (ucast x), c)
     else (a, b, c + push_bit (8 * (i - 7)) (ucast x)))"

definition fold_tail :: "u8 list \<Rightarrow> abc \<Rightarrow> abc" where
  "fold_tail r s = fold fold_byte (rev (enumerate 0 r)) s"

definition hash_spec :: "u8 list \<Rightarrow> u32 \<Rightarrow> u32" where
  "hash_spec ks seed =
     (case blocks ks (0x9e3779b9, 0x9e3779b9, seed) of (r, a, b, c) \<Rightarrow>
        snd (snd (mix (fold_tail r (a, b, c + word_of_nat (length ks))))))"

text \<open>A memory that holds the bytes \<open>bs\<close> at address \<open>p\<close> and nothing else.\<close>

definition mem_of :: "u8 list \<Rightarrow> nat \<Rightarrow> mem" where
  "mem_of bs p = (\<lambda>a. if p \<le> a \<and> a < p + length bs then Some (bs ! (a - p)) else None)"

section \<open>The handle table (util/hashtable.h)\<close>

text \<open>
  \<^verbatim>\<open>hashtable_create\<close>, \<^verbatim>\<open>hashtable_get\<close>, \<^verbatim>\<open>hashtable_put\<close>, \<^verbatim>\<open>hashtable_remove\<close>,
  \<^verbatim>\<open>hashtable_capacity\<close> and \<^verbatim>\<open>hashtable_entries\<close> are declared in util/hashtable.h;
  keys are \<^verbatim>\<open>int64_t\<close>, values are \<^verbatim>\<open>void *\<close>, and the absent value is the null
  pointer.
\<close>

type_synonym key = "64 word"
type_synonym ptr = "64 word"

definition NULL :: ptr where
  "NULL = 0"

text \<open>
  Modelled from the spec: the status that put returns, which section 4.2 has fail only on
  allocation failure; the status values of the library are not under src/.
\<close>

datatype put_status = PUT_OK | PUT_NO_MEM

text \<open>
  Modelled from the spec: util/hashtable.c, the bodies of the functions that
  util/hashtable.h declares, is missing. Section 4.2 of the specification gives the
  contracts and lets the collision policy be bucket chains, which this model takes:
  the table is an array of chains of (key, value) entries, a key lives in the chain
  whose index is its hash (section 4.1, over the eight bytes of the key, lowest first)
  modulo the capacity, and the table keeps the number of live entries. The granularity
  of the capacity and the load threshold are internal and not given: they are fields
  of the table, set at creation.
\<close>

record hashtable_t =
  buckets :: "(key \<times> ptr) list list"
  used_entries :: nat
  hash_salt :: u32
  granularity :: nat
  max_load :: nat

text \<open>
  Modelled from the spec: the eight bytes of a key as the hash reads them in memory,
  lowest byte first.
\<close>

definition key_bytes :: "key \<Rightarrow> u8 list" where
  "key_bytes k = map (\<lambda>i. ucast (drop_bit (8 * i) k)) [0 ..< 8]"

text \<open>Modelled from the spec: the slot index of a key, by the hash of section 4.1.\<close>

definition slot :: "u32 \<Rightarrow> nat \<Rightarrow> key \<Rightarrow> nat" where
  "slot salt cap k =
     (case hash (mem_of (key_bytes k) 0) 0 8 salt of
        None \<Rightarrow> 0
      | Some h \<Rightarrow> unat h mod cap)"

text \<open>Modelled from the spec: a capacity rounded up to the granularity.\<close>

definition round_up :: "nat \<Rightarrow> nat \<Rightarrow> nat" where
  "round_up g n = ((n + g - 1) div g) * g"

text \<open>
  Modelled from the spec: \<open>create(initial_capacity)\<close>, capacity rounded up to the
  granularity, starts empty.
\<close>

definition hashtable_create :: "nat \<Rightarrow> nat \<Rightarrow> u32 \<Rightarrow> nat \<Rightarrow> hashtable_t" where
  "hashtable_create g ld salt size' =
     \<lparr> buckets = replicate (round_up g size') [], used_entries = 0, hash_salt = salt,
       granularity = g, max_load = ld \<rparr>"

text \<open>Modelled from the spec: \<open>capacity()\<close> and \<open>entries()\<close>.\<close>

definition hashtable_capacity :: "hashtable_t \<Rightarrow> nat" where
  "hashtable_capacity t = length (buckets t)"

definition hashtable_entries :: "hashtable_t \<Rightarrow> nat" where
  "hashtable_entries t = used_entries t"

text \<open>
  Modelled from the spec: the chain a key belongs to; a table of capacity 0 has none.
\<close>

definition chain :: "u32 \<Rightarrow> (key \<times> ptr) list list \<Rightarrow> key \<Rightarrow> (key \<times> ptr) list" where
  "chain salt bs k = (if bs = [] then [] else bs ! slot salt (length bs) k)"

definition chain_of :: "hashtable_t \<Rightarrow> key \<Rightarrow> (key \<times> ptr) list" where
  "chain_of t k = chain (hash_salt t) (buckets t) k"

text \<open>Modelled from the spec: \<open>get(key) -> value|absent\<close>.\<close>

definition hashtable_get :: "hashtable_t \<Rightarrow> key \<Rightarrow> ptr" where
  "hashtable_get t k = (case map_of (chain_of t k) k of None \<Rightarrow> NULL | Some v \<Rightarrow> v)"

text \<open>Modelled from the spec: a new entry goes to the front of the chain of its slot.\<close>

definition insert_entry :: "u32 \<Rightarrow> key \<times> ptr \<Rightarrow> (key \<times> ptr) list list \<Rightarrow> (key \<times> ptr) list list" where
  "insert_entry salt e bs = (let i = slot salt (length bs) (fst e) in bs[i := e # bs ! i])"

text \<open>
  Modelled from the spec: the resize, which rehashes all live entries into a table of
  the new capacity.
\<close>

definition rehash :: "u32 \<Rightarrow> nat \<Rightarrow> (key \<times> ptr) list list \<Rightarrow> (key \<times> ptr) list list" where
  "rehash salt cap bs = foldr (insert_entry salt) (concat bs) (replicate cap [])"

text \<open>
  Modelled from the spec: \<open>put(key, value) -> status\<close> inserts or overwrites, grows
  the table by one granule and rehashes when the new entry takes the load over the
  threshold, and fails only when the allocation of the new entry or of the grown table
  fails; \<open>alloc\<close> says whether the allocator succeeds.
\<close>

definition hashtable_put :: "bool \<Rightarrow> hashtable_t \<Rightarrow> key \<Rightarrow> ptr \<Rightarrow> put_status \<times> hashtable_t" where
  "hashtable_put alloc t k v =
     (if map_of (chain_of t k) k \<noteq> None then
        (let i = slot (hash_salt t) (length (buckets t)) k in
         (PUT_OK, t\<lparr>buckets := (buckets t)[i := AList.update k v (buckets t ! i)]\<rparr>))
      else if \<not> alloc then (PUT_NO_MEM, t)
      else
        (let bs = (if max_load t * length (buckets t) < used_entries t + 1
                   then rehash (hash_salt t) (length (buckets t) + granularity t) (buckets t)
                   else buckets t)
         in (PUT_OK, t\<lparr>buckets := insert_entry (hash_salt t) (k, v) bs,
                        used_entries := used_entries t + 1\<rparr>)))"

text \<open>
  Modelled from the spec: \<open>remove(key) -> previous_value|absent\<close> removes the entry
  and returns the prior value, and returns the sentinel for an absent key.
\<close>

definition hashtable_remove :: "hashtable_t \<Rightarrow> key \<Rightarrow> ptr \<times> hashtable_t" where
  "hashtable_remove t k =
     (case map_of (chain_of t k) k of
        None \<Rightarrow> (NULL, t)
      | Some v \<Rightarrow>
          (let i = slot (hash_salt t) (length (buckets t)) k in
           (v, t\<lparr>buckets := (buckets t)[i := AList.delete k (buckets t ! i)],
                 used_entries := used_entries t - 1\<rparr>)))"

text \<open>A run of insertions, every allocation succeeding, and a run of removals.\<close>

definition put_all :: "hashtable_t \<Rightarrow> (key \<times> ptr) list \<Rightarrow> hashtable_t" where
  "put_all t kvs = fold (\<lambda>(k, v) t. snd (hashtable_put True t k v)) kvs t"

definition remove_all :: "hashtable_t \<Rightarrow> key list \<Rightarrow> hashtable_t" where
  "remove_all t ks = fold (\<lambda>k t. snd (hashtable_remove t k)) ks t"

text \<open>
  The invariant of the table: a positive granularity, every entry in the chain of its
  slot, and the entry count equal to the number of keys that have a value.
\<close>

definition lookup :: "hashtable_t \<Rightarrow> key \<Rightarrow> ptr option" where
  "lookup t k = map_of (chain_of t k) k"

definition chains_ok :: "u32 \<Rightarrow> (key \<times> ptr) list list \<Rightarrow> bool" where
  "chains_ok salt bs =
     (\<forall>i < length bs. \<forall>e \<in> set (bs ! i). slot salt (length bs) (fst e) = i)"

definition table_inv :: "hashtable_t \<Rightarrow> bool" where
  "table_inv t =
     (0 < granularity t \<and> chains_ok (hash_salt t) (buckets t) \<and>
      used_entries t = card (dom (lookup t)))"

section \<open>The tag engine (the API of lib/libplctag.h, as the examples call it)\<close>

text \<open>
  examples/async.c and examples/stress_api_lock.c call \<^verbatim>\<open>plc_tag_create\<close>,
  \<^verbatim>\<open>plc_tag_status\<close>, \<^verbatim>\<open>plc_tag_read\<close>, \<^verbatim>\<open>plc_tag_write\<close> and
  \<^verbatim>\<open>plc_tag_destroy\<close> with an \<^verbatim>\<open>int32_t\<close> handle, and name the status values
  \<^verbatim>\<open>PLCTAG_STATUS_OK\<close>, \<^verbatim>\<open>PLCTAG_STATUS_PENDING\<close>, \<^verbatim>\<open>PLCTAG_ERR_CREATE\<close> and
  \<^verbatim>\<open>PLCTAG_ERR_TIMEOUT\<close>.
\<close>

type_synonym handle = int

text \<open>
  Modelled from the spec: lib/libplctag.h, which declares the status enumeration, is
  missing. Four members are named in the examples; the others are those that section 6
  and section 4.3 of the specification list (configuration error, transport error,
  decoding error, not found, not ready, out of bounds, and the wire error reported by
  the remote endpoint).
\<close>

datatype status =
    PLCTAG_STATUS_OK
  | PLCTAG_STATUS_PENDING
  | PLCTAG_ERR_TIMEOUT
  | PLCTAG_ERR_CREATE
  | ErrBadConfig
  | ErrBadConnection
  | ErrBadData
  | ErrNotFound
  | ErrNotReady
  | ErrOutOfBounds
  | ErrRemote nat

text \<open>
  Modelled from the spec: the numeric values of the enumeration are in lib/libplctag.h,
  which is missing. The specification fixes that error codes are negative; the examples
  treat OK and pending as the two values that are not errors. The numbering of the
  errors below is arbitrary among the negative integers.
\<close>

fun status_code :: "status \<Rightarrow> int" where
  "status_code PLCTAG_STATUS_OK = 0"
| "status_code PLCTAG_STATUS_PENDING = 1"
| "status_code PLCTAG_ERR_TIMEOUT = - 1"
| "status_code PLCTAG_ERR_CREATE = - 2"
| "status_code ErrBadConfig = - 3"
| "status_code ErrBadConnection = - 4"
| "status_code ErrBadData = - 5"
| "status_code ErrNotFound = - 6"
| "status_code ErrNotReady = - 7"
| "status_code ErrOutOfBounds = - 8"
| "status_code (ErrRemote n) = - 9 - int n"

definition is_error :: "status \<Rightarrow> bool" where
  "is_error e = (e \<noteq> PLCTAG_STATUS_OK \<and> e \<noteq> PLCTAG_STATUS_PENDING)"

text \<open>
  Modelled from the spec: lib/, the engine behind the API, is missing. Sections 3 and
  4.3 of the specification give its data and the contract of every operation. A tag
  owns a buffer, its last status, the endpoint of its connection and the
  correlation id of its outstanding request, if any. A connection owns the
  correlation counter, the tags multiplexed over it and the requests that await a
  response. The engine owns the handle table, the connections and the next handle;
  the handle table is taken as the finite map from handles to tags that it implements.
  The attribute string is taken parsed (its parsing is outside the specification).
\<close>

record attributes =
  attr_endpoint :: string
  attr_elem_size :: nat
  attr_elem_count :: nat
  attr_size :: nat

datatype op_kind = OpRead | OpWrite

datatype response = Reply "u8 list" | Reject nat

record tag_t =
  buffer :: "u8 list"
  tag_status :: status
  endpoint :: string
  in_flight :: "nat option"

record connection =
  next_corr :: nat
  users :: "handle list"
  pending :: "(nat \<times> handle \<times> op_kind) list"

record engine =
  tags :: "(handle \<times> tag_t) list"
  conns :: "(string \<times> connection) list"
  next_handle :: handle

text \<open>
  Modelled from the spec: handles are at least 0. examples/async.c stores 0 for a tag
  it failed to create and never destroys a tag whose handle is 0, so the first handle
  is 1.
\<close>

definition engine_init :: engine where
  "engine_init = \<lparr> tags = [], conns = [], next_handle = 1 \<rparr>"

text \<open>Modelled from the spec: one connection per endpoint, created on first use.\<close>

definition attach :: "string \<Rightarrow> handle \<Rightarrow> (string \<times> connection) list \<Rightarrow> (string \<times> connection) list" where
  "attach ep h cs =
     (case map_of cs ep of
        None \<Rightarrow> AList.update ep \<lparr> next_corr = 0, users = [h], pending = [] \<rparr> cs
      | Some c \<Rightarrow> AList.update ep (c\<lparr>users := h # users c\<rparr>) cs)"

text \<open>Modelled from the spec: the connection is closed when its last tag leaves.\<close>

definition detach :: "string \<Rightarrow> handle \<Rightarrow> (string \<times> connection) list \<Rightarrow> (string \<times> connection) list" where
  "detach ep h cs =
     (case map_of cs ep of
        None \<Rightarrow> cs
      | Some c \<Rightarrow>
          (let us = removeAll h (users c) in
           if us = [] then AList.delete ep cs else AList.update ep (c\<lparr>users := us\<rparr>) cs))"

text \<open>
  Modelled from the spec: a cancelled request leaves the requests that await a
  response, so that a late response with its correlation id matches nothing.
\<close>

definition cancel :: "string \<Rightarrow> nat \<Rightarrow> (string \<times> connection) list \<Rightarrow> (string \<times> connection) list" where
  "cancel ep cid cs =
     (case map_of cs ep of
        None \<Rightarrow> cs
      | Some c \<Rightarrow> AList.update ep (c\<lparr>pending := AList.delete cid (pending c)\<rparr>) cs)"

text \<open>
  Modelled from the spec: \<open>create(attributes, timeout) -> Handle|ErrorCode\<close>. Element
  count times element size must be the buffer capacity, else a configuration error.
  With timeout 0 the handle is returned at once, the tag pending. With a timeout the
  call blocks; \<open>w\<close> is what the connection attempt has reached at the deadline: ready
  (the handle is returned), still pending (the timeout error) or an error (that error);
  a failed creation registers nothing.
\<close>

definition plc_tag_create :: "engine \<Rightarrow> attributes \<Rightarrow> nat \<Rightarrow> status \<Rightarrow> int \<times> engine" where
  "plc_tag_create s a timeout w =
     (if attr_elem_size a * attr_elem_count a \<noteq> attr_size a then (status_code ErrBadConfig, s)
      else
        (let h = next_handle s;
             t = \<lparr> buffer = replicate (attr_size a) 0,
                   tag_status = (if timeout = 0 then PLCTAG_STATUS_PENDING else PLCTAG_STATUS_OK),
                   endpoint = attr_endpoint a, in_flight = None \<rparr>;
             s' = s\<lparr>tags := (h, t) # tags s,
                    conns := attach (attr_endpoint a) h (conns s),
                    next_handle := h + 1\<rparr>
         in if timeout = 0 \<or> w = PLCTAG_STATUS_OK then (h, s')
            else if w = PLCTAG_STATUS_PENDING then (status_code PLCTAG_ERR_TIMEOUT, s)
            else (status_code w, s)))"

text \<open>Modelled from the spec: \<open>status(handle)\<close>, non-blocking, never mutates state.\<close>

definition plc_tag_status :: "engine \<Rightarrow> handle \<Rightarrow> int" where
  "plc_tag_status s h =
     (case map_of (tags s) h of
        None \<Rightarrow> status_code ErrNotFound
      | Some t \<Rightarrow> status_code (tag_status t))"

text \<open>
  Modelled from the spec: the decode of a response into the tag. A reply to a read
  replaces the buffer when it has the size of the buffer and is a decoding error
  otherwise; a rejection is the wire error of the remote endpoint.
\<close>

definition apply_response :: "op_kind \<Rightarrow> response \<Rightarrow> tag_t \<Rightarrow> tag_t" where
  "apply_response kind r t =
     (case r of
        Reject e \<Rightarrow> t\<lparr>tag_status := ErrRemote e, in_flight := None\<rparr>
      | Reply bs \<Rightarrow>
          (case kind of
             OpWrite \<Rightarrow> t\<lparr>tag_status := PLCTAG_STATUS_OK, in_flight := None\<rparr>
           | OpRead \<Rightarrow>
               if length bs = length (buffer t)
               then t\<lparr>buffer := bs, tag_status := PLCTAG_STATUS_OK, in_flight := None\<rparr>
               else t\<lparr>tag_status := ErrBadData, in_flight := None\<rparr>))"

text \<open>
  Modelled from the spec: \<open>read(handle, timeout)\<close> and \<open>write(handle, timeout)\<close>.
  The call fails with the not-ready error if a request is outstanding on the tag;
  otherwise the request takes the next correlation id of the connection. With timeout
  0 it returns pending. With a timeout it blocks; \<open>resp\<close> is the response that arrives
  before the deadline, if any: without one the call returns the timeout error and
  the request stays outstanding, with one the response is decoded.
\<close>

definition plc_tag_request :: "op_kind \<Rightarrow> engine \<Rightarrow> handle \<Rightarrow> nat \<Rightarrow> response option \<Rightarrow> int \<times> engine" where
  "plc_tag_request kind s h timeout resp =
     (case map_of (tags s) h of
        None \<Rightarrow> (status_code ErrNotFound, s)
      | Some t \<Rightarrow>
          if in_flight t \<noteq> None then (status_code ErrNotReady, s)
          else
            (case map_of (conns s) (endpoint t) of
               None \<Rightarrow> (status_code ErrBadConnection, s)
             | Some c \<Rightarrow>
                 (case (if timeout = 0 then None else resp) of
                    None \<Rightarrow>
                      (status_code (if timeout = 0 then PLCTAG_STATUS_PENDING else PLCTAG_ERR_TIMEOUT),
                       s\<lparr>tags := AList.update h
                            (t\<lparr>tag_status := PLCTAG_STATUS_PENDING, in_flight := Some (next_corr c)\<rparr>)
                            (tags s),
                         conns := AList.update (endpoint t)
                            (c\<lparr>next_corr := next_corr c + 1,
                               pending := pending c @ [(next_corr c, h, kind)]\<rparr>)
                            (conns s)\<rparr>)
                  | Some r \<Rightarrow>
                      (status_code (tag_status (apply_response kind r t)),
                       s\<lparr>tags := AList.update h (apply_response kind r t) (tags s),
                         conns := AList.update (endpoint t)
                            (c\<lparr>next_corr := next_corr c + 1\<rparr>) (conns s)\<rparr>))))"

definition plc_tag_read :: "engine \<Rightarrow> handle \<Rightarrow> nat \<Rightarrow> response option \<Rightarrow> int \<times> engine" where
  "plc_tag_read = plc_tag_request OpRead"

definition plc_tag_write :: "engine \<Rightarrow> handle \<Rightarrow> nat \<Rightarrow> response option \<Rightarrow> int \<times> engine" where
  "plc_tag_write = plc_tag_request OpWrite"

text \<open>Modelled from the spec: \<open>abort(handle)\<close> cancels the outstanding request.\<close>

definition plc_tag_abort :: "engine \<Rightarrow> handle \<Rightarrow> int \<times> engine" where
  "plc_tag_abort s h =
     (case map_of (tags s) h of
        None \<Rightarrow> (status_code ErrNotFound, s)
      | Some t \<Rightarrow>
          (case in_flight t of
             None \<Rightarrow> (status_code PLCTAG_STATUS_OK, s)
           | Some cid \<Rightarrow>
               (status_code PLCTAG_STATUS_OK,
                s\<lparr>tags := AList.update h
                     (t\<lparr>tag_status := PLCTAG_STATUS_OK, in_flight := None\<rparr>) (tags s),
                  conns := cancel (endpoint t) cid (conns s)\<rparr>)))"

text \<open>
  Modelled from the spec: \<open>destroy(handle)\<close> aborts the outstanding request,
  detaches the tag from its connection, removes the handle from the handle table and
  releases the tag; the handle is not found afterwards.
\<close>

definition plc_tag_destroy :: "engine \<Rightarrow> handle \<Rightarrow> int \<times> engine" where
  "plc_tag_destroy s h =
     (case map_of (tags s) h of
        None \<Rightarrow> (status_code ErrNotFound, s)
      | Some t \<Rightarrow>
          (let cs = (case in_flight t of
                       None \<Rightarrow> conns s
                     | Some cid \<Rightarrow> cancel (endpoint t) cid (conns s))
           in (status_code PLCTAG_STATUS_OK,
               s\<lparr>tags := AList.delete h (tags s), conns := detach (endpoint t) h cs\<rparr>)))"

text \<open>
  Modelled from the spec: a response with correlation id \<open>cid\<close> arrives on the
  connection to \<open>ep\<close>. One that matches no awaited request is discarded. One that
  matches is decoded into the buffer of the tag that issued the request; \<open>None\<close> is the
  fault the specification forbids, a write through the reference to a tag that has
  been released.
\<close>

definition deliver :: "engine \<Rightarrow> string \<Rightarrow> nat \<Rightarrow> response \<Rightarrow> engine option" where
  "deliver s ep cid r =
     (case map_of (conns s) ep of
        None \<Rightarrow> Some s
      | Some c \<Rightarrow>
          (case map_of (pending c) cid of
             None \<Rightarrow> Some s
           | Some (h, kind) \<Rightarrow>
               (case map_of (tags s) h of
                  None \<Rightarrow> None
                | Some t \<Rightarrow>
                    Some (s\<lparr>tags := AList.update h (apply_response kind r t) (tags s),
                            conns := AList.update ep
                              (c\<lparr>pending := AList.delete cid (pending c)\<rparr>) (conns s)\<rparr>))))"

text \<open>Modelled from the spec: the connection of a pending tag becomes ready.\<close>

definition connected :: "engine \<Rightarrow> handle \<Rightarrow> engine" where
  "connected s h =
     (case map_of (tags s) h of
        None \<Rightarrow> s
      | Some t \<Rightarrow>
          if tag_status t = PLCTAG_STATUS_PENDING \<and> in_flight t = None
          then s\<lparr>tags := AList.update h (t\<lparr>tag_status := PLCTAG_STATUS_OK\<rparr>) (tags s)\<rparr>
          else s)"

text \<open>
  Modelled from the spec: section 5 has the engine serialise the calls of the
  application threads and the arrivals from the network. An event is one call or one
  arrival; a run takes a sequence of them one at a time, and is \<open>None\<close> when a step
  faults.
\<close>

datatype event =
    Create attributes nat status
  | Request op_kind handle nat "response option"
  | Abort handle
  | Destroy handle
  | Deliver string nat response
  | Connected handle

fun step :: "engine \<Rightarrow> event \<Rightarrow> engine option" where
  "step s (Create a timeout w) = Some (snd (plc_tag_create s a timeout w))"
| "step s (Request kind h timeout resp) = Some (snd (plc_tag_request kind s h timeout resp))"
| "step s (Abort h) = Some (snd (plc_tag_abort s h))"
| "step s (Destroy h) = Some (snd (plc_tag_destroy s h))"
| "step s (Deliver ep cid r) = deliver s ep cid r"
| "step s (Connected h) = Some (connected s h)"

fun run :: "engine \<Rightarrow> event list \<Rightarrow> engine option" where
  "run s [] = Some s"
| "run s (e # es) = (case step s e of None \<Rightarrow> None | Some s' \<Rightarrow> run s' es)"

text \<open>
  \<^verbatim>\<open>open_tag\<close> of examples/stress_api_lock.c, with \<^verbatim>\<open>DATA_TIMEOUT\<close> 1500: a negative
  result of \<^verbatim>\<open>plc_tag_create\<close> is an error, anything else is used as the handle.
\<close>

definition DATA_TIMEOUT :: nat where
  "DATA_TIMEOUT = 1500"

definition open_tag :: "engine \<Rightarrow> attributes \<Rightarrow> status \<Rightarrow> int \<times> engine" where
  "open_tag s tag_str w =
     (case plc_tag_create s tag_str DATA_TIMEOUT w of (tag, s1) \<Rightarrow>
        if tag < 0 then (status_code PLCTAG_ERR_CREATE, s1)
        else
          (let rc = plc_tag_status s1 tag in
           if rc \<noteq> status_code PLCTAG_STATUS_OK then (rc, snd (plc_tag_destroy s1 tag))
           else (tag, s1)))"

text \<open>
  The invariant of the engine: handles are positive, live ones below the next one, and
  every request that awaits a response on a connection was issued by a live tag of that
  connection that still has it outstanding.
\<close>

definition engine_inv :: "engine \<Rightarrow> bool" where
  "engine_inv s =
     (0 < next_handle s \<and>
      (\<forall>h t. map_of (tags s) h = Some t \<longrightarrow> 0 < h \<and> h < next_handle s) \<and>
      (\<forall>ep c cid h k. map_of (conns s) ep = Some c \<longrightarrow> (cid, h, k) \<in> set (pending c) \<longrightarrow>
         (\<exists>t. map_of (tags s) h = Some t \<and> endpoint t = ep \<and> in_flight t = Some cid)))"



text \<open>
  \<^verbatim>\<open>TAG_PATH\<close> of examples/stress_api_lock.c, parsed: one element of four bytes behind
  the gateway 10.206.1.39, and an engine whose only tag has a read outstanding.
\<close>

definition TAG_PATH :: attributes where
  "TAG_PATH = \<lparr> attr_endpoint = ''ab_eip 10.206.1.39 1,0'', attr_elem_size = 4,
     attr_elem_count = 1, attr_size = 4 \<rparr>"

definition busy_engine :: engine where
  "busy_engine =
     snd (plc_tag_read (snd (plc_tag_create engine_init TAG_PATH 0 PLCTAG_STATUS_OK)) 1 0 None)"


section \<open>Properties of the hash primitive\<close>

lemma bytes_at_length: "bytes_at m k n = Some ks \<Longrightarrow> length ks = n"
  by (induction n arbitrary: k ks) (auto split: option.splits)

lemma bytes_at_add:
  "bytes_at m k (i + j) =
     (case bytes_at m k i of None \<Rightarrow> None
      | Some xs \<Rightarrow> map_option ((@) xs) (bytes_at m (k + i) j))"
proof (induction i arbitrary: k)
  case 0
  show ?case by (cases "bytes_at m k j") simp_all
next
  case (Suc i)
  show ?case
    by (cases "m k"; cases "bytes_at m (Suc k) i"; cases "bytes_at m (Suc (k + i)) j")
       (simp_all add: Suc)
qed

lemma word_at_bytes: "word_at m k i = map_option le32 (bytes_at m (k + i) 4)"
  by (simp add: word_at_def rd_def eval_nat_numeral push_bit_add ac_simps
      split: option.splits)

lemma bytes_at_12_split:
  "bytes_at m k 12 =
     (case bytes_at m k 4 of None \<Rightarrow> None | Some x \<Rightarrow>
      (case bytes_at m (k + 4) 4 of None \<Rightarrow> None | Some y \<Rightarrow>
       (case bytes_at m (k + 8) 4 of None \<Rightarrow> None | Some z \<Rightarrow> Some (x @ y @ z))))"
  using bytes_at_add [of m k 4 8] bytes_at_add [of m "k + 4" 4 4]
  by (simp add: add.assoc split: option.splits)

lemma bytes_at_12:
  assumes "bytes_at m k 12 = Some bs"
  shows "word_at m k 0 = Some (le32 (take 4 bs)) \<and>
     word_at m k 4 = Some (le32 (take 4 (drop 4 bs))) \<and>
     word_at m k 8 = Some (le32 (take 4 (drop 8 bs)))"
proof -
  from assms obtain x y z where
    x: "bytes_at m k 4 = Some x" and y: "bytes_at m (k + 4) 4 = Some y"
    and z: "bytes_at m (k + 8) 4 = Some z" and bs: "bs = x @ y @ z"
    by (auto simp: bytes_at_12_split split: option.splits)
  have "length x = 4" "length y = 4" "length z = 4"
    using x y z by (auto dest: bytes_at_length)
  then show ?thesis
    using x y z by (simp add: word_at_bytes bs)
qed

lemma bytes_at_12_None:
  "bytes_at m k 12 = None \<Longrightarrow>
     word_at m k 0 = None \<or> word_at m k 4 = None \<or> word_at m k 8 = None"
  by (auto simp: word_at_bytes bytes_at_12_split split: option.splits)

lemma blocks_step:
  "length bs = 12 \<Longrightarrow>
     blocks (bs @ ks) (a, b, c) =
       blocks ks (mix (a + le32 (take 4 bs), b + le32 (take 4 (drop 4 bs)),
         c + le32 (take 4 (drop 8 bs))))"
  by (subst blocks.simps) simp

lemma hash_loop_blocks:
  "hash_loop m k len s =
     (case bytes_at m k (unat len - unat len mod 12) of
        None \<Rightarrow> None
      | Some bs \<Rightarrow> Some (k + length bs, word_of_nat (unat len mod 12), snd (blocks bs s)))"
proof (induction m k len s rule: hash_loop.induct)
  case (1 m k len s)
  obtain a b c where s: "s = (a, b, c)" by (cases s)
  show ?case
  proof (cases "12 \<le> len")
    case False
    then have "unat len < 12" by (simp add: word_le_nat_alt)
    with False show ?thesis
      by (subst hash_loop.simps) (simp add: blocks.simps)
  next
    case True
    then have n: "unat len = 12 + unat (len - 12)"
      by (simp add: word_le_nat_alt unat_sub_if')
    define j where "j = unat (len - 12) - unat (len - 12) mod 12"
    have "unat len - unat len mod 12 = 12 + j"
      unfolding j_def n by (simp add: mod_simps)
    then have tot: "bytes_at m k (unat len - unat len mod 12) =
        (case bytes_at m k 12 of None \<Rightarrow> None
         | Some xs \<Rightarrow> map_option ((@) xs) (bytes_at m (k + 12) j))"
      by (simp add: bytes_at_add)
    have md: "unat len mod 12 = unat (len - 12) mod 12"
      unfolding n by (simp add: mod_simps)
    show ?thesis
    proof (cases "bytes_at m k 12")
      case None
      have "hash_loop m k len s = None"
        using bytes_at_12_None [OF None] True
        by (subst hash_loop.simps) (auto simp: s split: option.splits)
      then show ?thesis
        by (simp add: tot None)
    next
      case (Some bs)
      note w = bytes_at_12 [OF Some]
      have len: "length bs = 12" using Some by (rule bytes_at_length)
      let ?s' = "mix (a + le32 (take 4 bs), b + le32 (take 4 (drop 4 bs)),
          c + le32 (take 4 (drop 8 bs)))"
      have "hash_loop m k len s = hash_loop m (k + 12) (len - 12) ?s'"
        using True w by (subst hash_loop.simps) (simp add: s)
      also have "\<dots> = (case bytes_at m (k + 12) j of None \<Rightarrow> None
          | Some bs' \<Rightarrow> Some (k + 12 + length bs', word_of_nat (unat (len - 12) mod 12),
              snd (blocks bs' ?s')))"
        using w by (simp add: 1 [OF True s [symmetric] refl] j_def)
      also have "\<dots> = (case bytes_at m (k + 12) j of None \<Rightarrow> None
          | Some bs' \<Rightarrow> Some (k + length (bs @ bs'), word_of_nat (unat len mod 12),
              snd (blocks (bs @ bs') s)))"
        by (simp add: md len s blocks_step add.assoc split: option.splits)
      finally show ?thesis
        by (simp add: tot Some split: option.splits)
    qed
  qed
qed


lemma tail_case_fold_byte:
  assumes "n < 11"
  shows "tail_case (Suc n) m k s = map_option (\<lambda>x. fold_byte (n, x) s) (m (k + n))"
proof -
  obtain a b c where s: "s = (a, b, c)" by (cases s)
  from assms have "n = 10 \<or> n = 9 \<or> n = 8 \<or> n = 7 \<or> n = 6 \<or> n = 5 \<or> n = 4
      \<or> n = 3 \<or> n = 2 \<or> n = 1 \<or> n = 0"
    by arith
  then show ?thesis
    by (elim disjE)
      (simp_all add: s tail_case_def fold_byte_def rd_def option.map_comp comp_def)
qed

lemma bytes_at_Suc_end:
  "bytes_at m k (Suc n) =
     (case bytes_at m k n of None \<Rightarrow> None
      | Some r \<Rightarrow> map_option (\<lambda>x. r @ [x]) (m (k + n)))"
  using bytes_at_add [of m k n 1]
  by (simp split: option.splits)

lemma fall_through_fold:
  "n \<le> 11 \<Longrightarrow>
     fall_through n m k s = map_option (\<lambda>r. fold_tail r s) (bytes_at m k n)"
proof (induction n arbitrary: s)
  case 0
  show ?case by (simp add: fold_tail_def)
next
  case (Suc n)
  then have n: "n < 11" "n \<le> 11" by simp_all
  show ?case
  proof (cases "bytes_at m k n")
    case None
    then show ?thesis
      using Suc.IH [OF n(2)]
      by (simp add: bytes_at_Suc_end tail_case_fold_byte [OF n(1)] del: bytes_at.simps
          split: option.splits)
  next
    case (Some r)
    then have "length r = n" by (rule bytes_at_length)
    then have "fold_tail (r @ [x]) s = fold_tail r (fold_byte (n, x) s)" for x s
      by (simp add: fold_tail_def enumerate_append_eq)
    then show ?thesis
      using Suc.IH [OF n(2)] Some
      by (simp add: bytes_at_Suc_end tail_case_fold_byte [OF n(1)] del: bytes_at.simps
          split: option.splits)
  qed
qed

lemma switch_len_tail:
  assumes "len < 12"
  shows "switch_len len m k s = map_option (\<lambda>r. fold_tail r s) (bytes_at m k (unat len))"
proof -
  from assms have n: "unat len \<le> 11"
    by (simp add: word_less_nat_alt)
  show ?thesis
  proof (cases "len = 0")
    case True
    then show ?thesis by (simp add: switch_len_def fold_tail_def)
  next
    case False
    then have "1 \<le> len" "len \<le> 11"
      using n by (simp_all add: word_le_nat_alt unat_gt_0 Suc_le_eq)
    then show ?thesis
      by (simp add: switch_len_def fall_through_fold [OF n])
  qed
qed


lemma blocks_append:
  "length bs = 12 * j \<Longrightarrow> length rs < 12 \<Longrightarrow>
     blocks (bs @ rs) s = (rs, snd (blocks bs s))"
proof (induction j arbitrary: bs s)
  case 0
  then show ?case by (simp add: blocks.simps)
next
  case (Suc j)
  obtain a b c where s: "s = (a, b, c)" by (cases s)
  define b1 b2 where "b1 = take 12 bs" and "b2 = drop 12 bs"
  have bs: "bs = b1 @ b2" and l1: "length b1 = 12" and l2: "length b2 = 12 * j"
    using Suc.prems(1) by (simp_all add: b1_def b2_def)
  show ?case
    using Suc.IH [OF l2 Suc.prems(2)] blocks_step [OF l1, of "b2 @ rs"] blocks_step [OF l1, of b2]
    by (simp add: bs s)
qed

lemma hash_via_bytes:
  "hash m k length' initval =
     map_option (\<lambda>ks. hash_spec ks initval) (bytes_at m k (unat (ucast length' :: u32)))"
proof -
  define len :: u32 where "len = ucast length'"
  define q r where "q = unat len - unat len mod 12" and "r = unat len mod 12"
  let ?init = "(0x9e3779b9, 0x9e3779b9, initval) :: abc"
  have n: "unat len = q + r" by (simp add: q_def r_def)
  have r: "r < 12" by (simp add: r_def)
  have ur: "unat (word_of_nat r :: u32) = r"
    using r by (simp add: unat_of_nat)
  then have lt: "(word_of_nat r :: u32) < 12"
    using r by (simp add: word_less_nat_alt)
  have loop: "hash_loop m k len ?init =
      (case bytes_at m k q of None \<Rightarrow> None
       | Some bs \<Rightarrow> Some (k + length bs, word_of_nat r, snd (blocks bs ?init)))"
    unfolding q_def r_def by (rule hash_loop_blocks)
  have tot: "bytes_at m k (unat len) =
      (case bytes_at m k q of None \<Rightarrow> None
       | Some bs \<Rightarrow> map_option ((@) bs) (bytes_at m (k + q) r))"
    by (simp add: n bytes_at_add)
  have h: "hash m k length' initval =
      (case hash_loop m k len ?init of None \<Rightarrow> None
       | Some (k', len', a, b, c) \<Rightarrow>
          (case switch_len len' m k' (a, b, c + len) of None \<Rightarrow> None
           | Some s \<Rightarrow> Some (snd (snd (mix s)))))"
    by (simp add: hash_def len_def split: option.splits prod.splits)
  show ?thesis
  proof (cases "bytes_at m k q")
    case None
    then show ?thesis
      unfolding h len_def [symmetric] tot loop by simp
  next
    case (Some bs)
    then have lbs: "length bs = q" by (rule bytes_at_length)
    have "12 dvd q" by (simp add: q_def dvd_minus_mod)
    then obtain j where j: "length bs = 12 * j" using lbs by (auto simp: dvd_def)
    obtain a b c where bl: "snd (blocks bs ?init) = (a, b, c)"
      by (cases "snd (blocks bs ?init)")
    have sw: "switch_len (word_of_nat r) m (k + q) (a, b, c + len) =
        map_option (\<lambda>rs. fold_tail rs (a, b, c + len)) (bytes_at m (k + q) r)"
      by (simp add: switch_len_tail [OF lt] ur)
    show ?thesis
    proof (cases "bytes_at m (k + q) r")
      case None
      then show ?thesis
        unfolding h len_def [symmetric] tot loop by (simp add: Some lbs bl sw)
    next
      case rs: (Some rs)
      then have "length rs = r" by (rule bytes_at_length)
      then have "hash_spec (bs @ rs) initval =
          snd (snd (mix (fold_tail rs (a, b, c + len))))"
        using r by (simp add: hash_spec_def blocks_append [OF j] bl lbs n [symmetric])
      then show ?thesis
        unfolding h len_def [symmetric] tot loop by (simp add: Some lbs bl sw rs)
    qed
  qed
qed


text \<open>
  Claim C1. The function computes the digest the specification describes, on the
  \<open>length mod 2 ^ 32\<close> key bytes it reads; it is undefined exactly when one of those
  bytes is unmapped.
\<close>

theorem hash_refines_spec:
  "hash m k length' initval =
     map_option (\<lambda>ks. hash_spec ks initval) (bytes_at m k (unat (ucast length' :: u32)))"
  by (rule hash_via_bytes)

lemma bytes_at_cong:
  "(\<And>i. i < n \<Longrightarrow> m1 (k1 + i) = m2 (k2 + i)) \<Longrightarrow> bytes_at m1 k1 n = bytes_at m2 k2 n"
proof (induction n arbitrary: k1 k2)
  case 0
  show ?case by simp
next
  case (Suc n)
  have "m1 k1 = m2 k2" using Suc.prems [of 0] by simp
  moreover have "bytes_at m1 (Suc k1) n = bytes_at m2 (Suc k2) n"
    using Suc.prems [of "Suc i" for i] by (intro Suc.IH) simp
  ultimately show ?case by (simp split: option.splits)
qed

text \<open>
  Claim C9. With length 0 the block loop and every case of the switch are skipped: no
  byte of memory is read (the result is defined in every memory, even one with no mapped
  address), and the digest is the third accumulator of one mix of the constant, the
  constant and the seed.
\<close>

theorem hash_empty_key:
  "hash m k 0 initval = Some (snd (snd (mix (0x9e3779b9, 0x9e3779b9, initval))))"
  by (simp add: hash_def hash_loop.simps switch_len_def split: prod.splits)

text \<open>
  Claim C2. The digest is a function of the key bytes, the length and the seed alone:
  in two memories, at two addresses, that hold the same key bytes, the function returns
  the same digest (or is undefined in both), whatever the rest of the two memories is.
  The function has no static state, stores nothing and calls no allocator, so memory is
  an input of the model only.
\<close>

theorem hash_deterministic:
  assumes "\<forall>i < unat (ucast length' :: u32). m1 (k1 + i) = m2 (k2 + i)"
  shows "hash m1 k1 length' initval = hash m2 k2 length' initval"
  using assms by (simp add: hash_via_bytes bytes_at_cong [of _ m1 k1 m2 k2])

theorem hash_deterministic_witness:
  "mem_of [1, 2, 3, 9] 0 3 \<noteq> mem_of [7, 1, 2, 3] 0 3 \<and>
   hash (mem_of [1, 2, 3, 9] 0) 0 3 5 = hash (mem_of [7, 1, 2, 3] 0) 1 3 5"
proof -
  have h: "\<forall>i < unat (ucast (3 :: size_t) :: u32).
      mem_of [1, 2, 3, 9] 0 (0 + i) = mem_of [7, 1, 2, 3] 0 (1 + i)"
    by (simp add: mem_of_def nth_Cons split: nat.splits)
  have d: "mem_of [1, 2, 3, 9] 0 3 \<noteq> mem_of [7, 1, 2, 3] 0 3"
    by (simp add: mem_of_def)
  have "hash (mem_of [1, 2, 3, 9] 0) 0 3 5 = hash (mem_of [7, 1, 2, 3] 0) 1 3 5"
    by (rule hash_deterministic [OF h])
  with d show ?thesis ..
qed

text \<open>
  Claim C10. The digest depends on the length modulo \<open>2 ^ 32\<close> only: hashing with
  length \<open>L\<close> is hashing, with length \<open>L mod 2 ^ 32\<close>, a memory that holds nothing
  but the first \<open>L mod 2 ^ 32\<close> bytes of the key.
\<close>

theorem hash_length_truncated:
  "hash m k length' initval =
     hash (m |` {k ..< k + unat (length' mod 2 ^ 32)}) k (length' mod 2 ^ 32) initval"
proof -
  define T where "T = length' mod 2 ^ 32"
  define n where "n = unat (ucast length' :: u32)"
  have t: "(ucast T :: u32) = ucast length'"
    by (simp add: T_def word_unat_eq_iff unsigned_ucast_eq take_bit_eq_mod unat_mod)
  have n: "unat T = n"
    by (simp add: T_def n_def unat_mod unsigned_ucast_eq take_bit_eq_mod)
  have "bytes_at m k n = bytes_at (m |` {k ..< k + n}) k n"
    by (rule bytes_at_cong) simp
  then have "hash m k length' initval = hash (m |` {k ..< k + unat T}) k T initval"
    by (simp add: hash_via_bytes t n n_def [symmetric])
  then show ?thesis
    by (simp only: T_def)
qed


section \<open>Properties of the handle table\<close>

lemma slot_less: "0 < cap \<Longrightarrow> slot salt cap k < cap"
  by (simp add: slot_def split: option.splits)

lemma length_insert_entry [simp]: "length (insert_entry salt e bs) = length bs"
  by (simp add: insert_entry_def Let_def)

lemma chains_ok_insert_entry:
  assumes "chains_ok salt bs"
  shows "chains_ok salt (insert_entry salt e bs)"
  unfolding chains_ok_def
proof (intro allI impI ballI)
  fix i x
  assume i: "i < length (insert_entry salt e bs)"
    and x: "x \<in> set (insert_entry salt e bs ! i)"
  let ?j = "slot salt (length bs) (fst e)"
  from i have i': "i < length bs" by simp
  show "slot salt (length (insert_entry salt e bs)) (fst x) = i"
  proof (cases "i = ?j")
    case True
    with i' x have "x = e \<or> x \<in> set (bs ! i)"
      by (auto simp: insert_entry_def Let_def)
    then show ?thesis
      using assms i' True by (auto simp: chains_ok_def)
  next
    case False
    with i' x have "x \<in> set (bs ! i)"
      by (simp add: insert_entry_def Let_def)
    then show ?thesis
      using assms i' by (auto simp: chains_ok_def)
  qed
qed

text \<open>What a key finds in an array of chains.\<close>

lemma find_insert_entry:
  assumes "bs \<noteq> []"
  shows "map_of (insert_entry salt (k, v) bs ! slot salt (length bs) k') k' =
     (if k' = k then Some v else map_of (bs ! slot salt (length bs) k') k')"
proof -
  from assms have "slot salt (length bs) k < length bs" "slot salt (length bs) k' < length bs"
    by (simp_all add: slot_less)
  then show ?thesis
    by (cases "slot salt (length bs) k' = slot salt (length bs) k")
      (auto simp: insert_entry_def Let_def)
qed

lemma length_foldr_insert [simp]:
  "length (foldr (insert_entry salt) es acc) = length acc"
  by (induction es) simp_all

lemma chains_ok_foldr_insert:
  "chains_ok salt acc \<Longrightarrow> chains_ok salt (foldr (insert_entry salt) es acc)"
  by (induction es) (simp_all add: chains_ok_insert_entry)

lemma find_foldr_insert:
  assumes "acc \<noteq> []"
  shows "map_of (foldr (insert_entry salt) es acc ! slot salt (length acc) k) k =
     (case map_of es k of None \<Rightarrow> map_of (acc ! slot salt (length acc) k) k | Some v \<Rightarrow> Some v)"
proof (induction es)
  case Nil
  show ?case by simp
next
  case (Cons e es)
  obtain k0 v0 where e: "e = (k0, v0)" by (cases e)
  have ne: "foldr (insert_entry salt) es acc \<noteq> []"
    using assms by (metis length_foldr_insert length_0_conv)
  show ?case
    using find_insert_entry [OF ne, of salt k0 v0 k] Cons.IH
    by (simp add: e)
qed

lemma map_of_concat_chain:
  "i < length bs \<Longrightarrow> (\<And>j. j < length bs \<Longrightarrow> j \<noteq> i \<Longrightarrow> k \<notin> fst ` set (bs ! j)) \<Longrightarrow>
     map_of (concat bs) k = map_of (bs ! i) k"
proof (induction bs arbitrary: i)
  case Nil
  then show ?case by simp
next
  case (Cons b bs)
  show ?case
  proof (cases i)
    case 0
    have "k \<notin> fst ` set (concat bs)"
    proof
      assume "k \<in> fst ` set (concat bs)"
      then obtain c where "c \<in> set bs" "k \<in> fst ` set c" by auto
      then obtain j where "j < length bs" "bs ! j = c" by (auto simp: in_set_conv_nth)
      with Cons.prems(2) [of "Suc j"] 0 \<open>k \<in> fst ` set c\<close> show False by simp
    qed
    then have "map_of (concat bs) k = None" by (simp add: map_of_eq_None_iff)
    with 0 show ?thesis by (simp add: map_add_def split: option.splits)
  next
    case (Suc i')
    have "k \<notin> fst ` set b" using Cons.prems(2) [of 0] Suc by simp
    then have b: "map_of b k = None" by (simp add: map_of_eq_None_iff)
    have "map_of (concat bs) k = map_of (bs ! i') k"
    proof (rule Cons.IH)
      show "i' < length bs" using Cons.prems(1) Suc by simp
    next
      fix j assume "j < length bs" "j \<noteq> i'"
      with Cons.prems(2) [of "Suc j"] Suc show "k \<notin> fst ` set (bs ! j)" by simp
    qed
    with b Suc show ?thesis by (simp add: map_add_def)
  qed
qed

lemma map_of_concat_slot:
  assumes "chains_ok salt bs" and "bs \<noteq> []"
  shows "map_of (concat bs) k = map_of (bs ! slot salt (length bs) k) k"
proof (rule map_of_concat_chain)
  show "slot salt (length bs) k < length bs" using assms(2) by (simp add: slot_less)
next
  fix j assume j: "j < length bs" "j \<noteq> slot salt (length bs) k"
  show "k \<notin> fst ` set (bs ! j)"
  proof
    assume "k \<in> fst ` set (bs ! j)"
    then obtain e where "e \<in> set (bs ! j)" "fst e = k" by auto
    with assms(1) j(1) have "slot salt (length bs) k = j" by (auto simp: chains_ok_def)
    with j(2) show False by simp
  qed
qed

lemma length_rehash [simp]: "length (rehash salt cap bs) = cap"
  by (simp add: rehash_def)

lemma chains_ok_replicate: "chains_ok salt (replicate n [])"
  by (simp add: chains_ok_def)

lemma chains_ok_rehash: "chains_ok salt (rehash salt cap bs)"
  by (simp add: rehash_def chains_ok_foldr_insert chains_ok_replicate)

lemma find_rehash:
  assumes "chains_ok salt bs" and "0 < cap"
  shows "map_of (rehash salt cap bs ! slot salt cap k) k =
     (if bs = [] then None else map_of (bs ! slot salt (length bs) k) k)"
proof -
  have "map_of (rehash salt cap bs ! slot salt cap k) k =
      (case map_of (concat bs) k of None \<Rightarrow> None | Some v \<Rightarrow> Some v)"
    using find_foldr_insert [of "replicate cap []" salt "concat bs" k] assms(2)
    by (simp add: rehash_def slot_less split: option.splits)
  also have "\<dots> = map_of (concat bs) k" by (simp split: option.splits)
  also have "\<dots> = (if bs = [] then None else map_of (bs ! slot salt (length bs) k) k)"
    using map_of_concat_slot [OF assms(1)] by simp
  finally show ?thesis .
qed


lemma find_chain_insert:
  "bs \<noteq> [] \<Longrightarrow>
     map_of (chain salt (insert_entry salt (k, v) bs) k') k' =
       ((\<lambda>k'. map_of (chain salt bs k') k')(k \<mapsto> v)) k'"
  using find_insert_entry [of bs salt k v k']
  by (auto simp: chain_def insert_entry_def Let_def)

lemma find_chain_rehash:
  "chains_ok salt bs \<Longrightarrow> 0 < cap \<Longrightarrow>
     map_of (chain salt (rehash salt cap bs) k) k = map_of (chain salt bs k) k"
proof -
  assume ok: "chains_ok salt bs" and cap: "0 < cap"
  have "length (rehash salt cap bs) \<noteq> 0" using cap by simp
  then have "rehash salt cap bs \<noteq> []" by (simp only: length_0_conv not_False_eq_True)
  then show ?thesis
    using find_rehash [OF ok cap, of k] by (simp add: chain_def)
qed

lemma find_chain_update:
  assumes "bs \<noteq> []"
  shows "map_of (chain salt (bs[slot salt (length bs) k :=
             AList.update k v (bs ! slot salt (length bs) k)]) k') k' =
       ((\<lambda>k'. map_of (chain salt bs k') k')(k \<mapsto> v)) k'"
proof -
  from assms have "slot salt (length bs) k < length bs" "slot salt (length bs) k' < length bs"
    by (simp_all add: slot_less)
  then show ?thesis
    using assms
    by (cases "slot salt (length bs) k' = slot salt (length bs) k")
      (auto simp: chain_def update_conv')
qed

lemma find_chain_delete:
  assumes "bs \<noteq> []"
  shows "map_of (chain salt (bs[slot salt (length bs) k :=
             AList.delete k (bs ! slot salt (length bs) k)]) k') k' =
       ((\<lambda>k'. map_of (chain salt bs k') k')(k := None)) k'"
proof -
  from assms have "slot salt (length bs) k < length bs" "slot salt (length bs) k' < length bs"
    by (simp_all add: slot_less)
  then show ?thesis
    using assms
    by (cases "slot salt (length bs) k' = slot salt (length bs) k")
      (auto simp: chain_def delete_conv')
qed

lemma chains_okD:
  "chains_ok salt bs \<Longrightarrow> i < length bs \<Longrightarrow> e \<in> set (bs ! i) \<Longrightarrow>
     slot salt (length bs) (fst e) = i"
  by (simp add: chains_ok_def)

lemma chains_ok_shrink:
  assumes "chains_ok salt bs" and "fst ` set c \<subseteq> insert k (fst ` set (bs ! slot salt (length bs) k))"
  shows "chains_ok salt (bs[slot salt (length bs) k := c])"
  unfolding chains_ok_def
proof (intro allI impI ballI)
  fix i x
  assume i: "i < length (bs[slot salt (length bs) k := c])"
    and x: "x \<in> set (bs[slot salt (length bs) k := c] ! i)"
  show "slot salt (length (bs[slot salt (length bs) k := c])) (fst x) = i"
  proof (cases "i = slot salt (length bs) k")
    case True
    with i x have "fst x \<in> fst ` set c" by simp
    with assms(2) have "fst x = k \<or> fst x \<in> fst ` set (bs ! i)" using True by auto
    then show ?thesis
    proof
      assume "fst x = k"
      with True show ?thesis by simp
    next
      assume "fst x \<in> fst ` set (bs ! i)"
      then obtain e where e: "e \<in> set (bs ! i)" "fst e = fst x" by auto
      from i have "i < length bs" by simp
      from chains_okD [OF assms(1) this e(1)] e(2) show ?thesis by simp
    qed
  next
    case False
    with i x have "x \<in> set (bs ! i)" by simp
    then show ?thesis
      using assms(1) i by (auto simp: chains_ok_def)
  qed
qed

lemma finite_dom_find: "finite (dom (\<lambda>k. map_of (chain salt bs k) k))"
proof (rule finite_subset)
  show "dom (\<lambda>k. map_of (chain salt bs k) k) \<subseteq> fst ` set (concat bs)"
  proof
    fix k assume "k \<in> dom (\<lambda>k. map_of (chain salt bs k) k)"
    then obtain v where "map_of (chain salt bs k) k = Some v" by auto
    then have kv: "(k, v) \<in> set (chain salt bs k)" by (rule map_of_SomeD)
    then have "bs \<noteq> []" by (auto simp: chain_def)
    then have "chain salt bs k \<in> set bs" by (simp add: chain_def slot_less)
    with kv show "k \<in> fst ` set (concat bs)" by force
  qed
qed simp


lemma chain_replicate: "chain salt (replicate n []) k = []"
  by (auto simp: chain_def slot_less)

lemma rehash_nonempty: "0 < cap \<Longrightarrow> rehash salt cap bs \<noteq> []"
  by (metis length_rehash length_0_conv less_nat_zero_code)

lemma lookup_chain: "lookup t = (\<lambda>k. map_of (chain (hash_salt t) (buckets t) k) k)"
  by (simp add: lookup_def chain_of_def fun_eq_iff)

lemma finite_dom_lookup: "finite (dom (lookup t))"
  by (simp add: lookup_chain finite_dom_find)

lemma lookup_Some_nonempty: "lookup t k = Some v \<Longrightarrow> buckets t \<noteq> []"
  by (auto simp: lookup_def chain_of_def chain_def)

lemma table_inv_create: "0 < g \<Longrightarrow> table_inv (hashtable_create g ld salt n)"
  by (simp add: table_inv_def hashtable_create_def chains_ok_replicate lookup_chain
      chain_replicate)

lemma lookup_create: "lookup (hashtable_create g ld salt n) k = None"
  by (simp add: hashtable_create_def lookup_chain chain_replicate)

lemma put_present:
  assumes "table_inv t" and "lookup t k = Some w"
  shows "fst (hashtable_put alloc t k v) = PUT_OK"
    and "table_inv (snd (hashtable_put alloc t k v))"
    and "lookup (snd (hashtable_put alloc t k v)) = (lookup t)(k \<mapsto> v)"
proof -
  let ?bs = "buckets t" and ?salt = "hash_salt t"
  let ?i = "slot ?salt (length ?bs) k"
  let ?t' = "t\<lparr>buckets := ?bs[?i := AList.update k v (?bs ! ?i)]\<rparr>"
  have ne: "?bs \<noteq> []" using assms(2) by (rule lookup_Some_nonempty)
  have put: "hashtable_put alloc t k v = (PUT_OK, ?t')"
    using assms(2) by (simp add: hashtable_put_def lookup_def Let_def)
  show "fst (hashtable_put alloc t k v) = PUT_OK" by (simp add: put)
  have l: "lookup ?t' = (lookup t)(k \<mapsto> v)"
    using find_chain_update [OF ne, of ?salt k v]
    by (simp add: lookup_chain fun_eq_iff)
  then show "lookup (snd (hashtable_put alloc t k v)) = (lookup t)(k \<mapsto> v)"
    by (simp add: put)
  have "chains_ok ?salt (?bs[?i := AList.update k v (?bs ! ?i)])"
    using assms(1) by (intro chains_ok_shrink) (auto simp: table_inv_def dom_update)
  moreover have "card (dom ((lookup t)(k \<mapsto> v))) = card (dom (lookup t))"
    using assms(2) by (simp add: insert_absorb domI)
  ultimately have "table_inv ?t'"
    using assms(1) l by (simp add: table_inv_def)
  then show "table_inv (snd (hashtable_put alloc t k v))"
    by (simp add: put)
qed

lemma put_absent:
  assumes "table_inv t" and "lookup t k = None"
  shows "fst (hashtable_put True t k v) = PUT_OK"
    and "table_inv (snd (hashtable_put True t k v))"
    and "lookup (snd (hashtable_put True t k v)) = (lookup t)(k \<mapsto> v)"
proof -
  let ?salt = "hash_salt t"
  define bs where "bs = (if max_load t * length (buckets t) < used_entries t + 1
      then rehash ?salt (length (buckets t) + granularity t) (buckets t) else buckets t)"
  let ?t' = "t\<lparr>buckets := insert_entry ?salt (k, v) bs, used_entries := used_entries t + 1\<rparr>"
  have g: "0 < granularity t" and ok: "chains_ok ?salt (buckets t)"
    and used: "used_entries t = card (dom (lookup t))"
    using assms(1) by (simp_all add: table_inv_def)
  have put: "hashtable_put True t k v = (PUT_OK, ?t')"
    using assms(2) by (simp add: hashtable_put_def lookup_def Let_def bs_def)
  show "fst (hashtable_put True t k v) = PUT_OK" by (simp add: put)
  have ne: "bs \<noteq> []"
    using g by (auto simp: bs_def rehash_nonempty)
  have ok': "chains_ok ?salt bs"
    using ok by (simp add: bs_def chains_ok_rehash)
  have same: "map_of (chain ?salt bs k') k' = lookup t k'" for k'
    using find_chain_rehash [OF ok, of "length (buckets t) + granularity t" k'] g
    by (simp add: bs_def lookup_chain)
  have l: "lookup ?t' = (lookup t)(k \<mapsto> v)"
    using find_chain_insert [OF ne, of ?salt k v] same
    by (simp add: lookup_chain fun_eq_iff)
  then show "lookup (snd (hashtable_put True t k v)) = (lookup t)(k \<mapsto> v)"
    by (simp add: put)
  have "card (dom ((lookup t)(k \<mapsto> v))) = Suc (card (dom (lookup t)))"
    using assms(2) finite_dom_lookup [of t] by (simp add: domIff)
  then have "table_inv ?t'"
    using g l used chains_ok_insert_entry [OF ok', of "(k, v)"] by (simp add: table_inv_def)
  then show "table_inv (snd (hashtable_put True t k v))"
    by (simp add: put)
qed

lemma put_correct:
  assumes "table_inv t"
  shows "fst (hashtable_put True t k v) = PUT_OK"
    and "table_inv (snd (hashtable_put True t k v))"
    and "lookup (snd (hashtable_put True t k v)) = (lookup t)(k \<mapsto> v)"
  using put_present [OF assms, of k _ True v] put_absent [OF assms, of k v]
  by (cases "lookup t k"; simp)+

lemma remove_correct:
  assumes "table_inv t"
  shows "fst (hashtable_remove t k) = (case lookup t k of None \<Rightarrow> NULL | Some v \<Rightarrow> v)"
    and "table_inv (snd (hashtable_remove t k))"
    and "lookup (snd (hashtable_remove t k)) = (lookup t)(k := None)"
proof -
  let ?bs = "buckets t" and ?salt = "hash_salt t"
  let ?i = "slot ?salt (length ?bs) k"
  let ?t' = "t\<lparr>buckets := ?bs[?i := AList.delete k (?bs ! ?i)],
      used_entries := used_entries t - 1\<rparr>"
  have all: "fst (hashtable_remove t k) = (case lookup t k of None \<Rightarrow> NULL | Some v \<Rightarrow> v) \<and>
      table_inv (snd (hashtable_remove t k)) \<and>
      lookup (snd (hashtable_remove t k)) = (lookup t)(k := None)"
  proof (cases "lookup t k")
    case None
    then have "hashtable_remove t k = (NULL, t)"
      by (simp add: hashtable_remove_def lookup_def)
    moreover have "(lookup t)(k := None) = lookup t"
      using None by (simp add: fun_eq_iff)
    ultimately show ?thesis using assms None by simp
  next
    case (Some w)
    then have ne: "?bs \<noteq> []" by (rule lookup_Some_nonempty)
    have rm: "hashtable_remove t k = (w, ?t')"
      using Some by (simp add: hashtable_remove_def lookup_def Let_def)
    have l: "lookup ?t' = (lookup t)(k := None)"
      using find_chain_delete [OF ne, of ?salt k]
      by (simp add: lookup_chain fun_eq_iff)
    have "chains_ok ?salt (?bs[?i := AList.delete k (?bs ! ?i)])"
      using assms dom_delete_subset [of k "?bs ! ?i"]
      by (intro chains_ok_shrink) (auto simp: table_inv_def)
    moreover have "card (dom ((lookup t)(k := None))) = card (dom (lookup t)) - 1"
      using Some finite_dom_lookup [of t] by (simp add: domI)
    ultimately have "table_inv ?t'"
      using assms l by (simp add: table_inv_def)
    with rm l Some show ?thesis by simp
  qed
  from all show "fst (hashtable_remove t k) = (case lookup t k of None \<Rightarrow> NULL | Some v \<Rightarrow> v)"
    and "table_inv (snd (hashtable_remove t k))"
    and "lookup (snd (hashtable_remove t k)) = (lookup t)(k := None)"
    by simp_all
qed


lemma put_grows:
  assumes "table_inv t" and "lookup t k = None"
    and "max_load t * hashtable_capacity t < hashtable_entries t + 1"
  shows "hashtable_capacity (snd (hashtable_put True t k v)) =
    hashtable_capacity t + granularity t"
  using assms
  by (simp add: hashtable_put_def lookup_def hashtable_capacity_def hashtable_entries_def
      Let_def)

lemma put_all_correct:
  "table_inv t \<Longrightarrow> distinct (map fst kvs) \<Longrightarrow>
     table_inv (put_all t kvs) \<and>
     lookup (put_all t kvs) = (\<lambda>k. case map_of kvs k of None \<Rightarrow> lookup t k | Some v \<Rightarrow> Some v)"
proof (induction kvs arbitrary: t)
  case Nil
  then show ?case by (simp add: put_all_def)
next
  case (Cons e kvs)
  obtain k v where e: "e = (k, v)" by (cases e)
  let ?t = "snd (hashtable_put True t k v)"
  have step: "put_all t ((k, v) # kvs) = put_all ?t kvs"
    by (simp add: put_all_def)
  have inv: "table_inv ?t" and l: "lookup ?t = (lookup t)(k \<mapsto> v)"
    using put_correct [OF Cons.prems(1)] by simp_all
  have fresh: "map_of kvs k = None"
    using Cons.prems(2) by (simp add: e map_of_eq_None_iff)
  from Cons.prems(2) have "distinct (map fst kvs)" by simp
  from Cons.IH [OF inv this]
  have IH: "table_inv (put_all ?t kvs)"
    "lookup (put_all ?t kvs) = (\<lambda>k'. case map_of kvs k' of None \<Rightarrow> lookup ?t k' | Some v \<Rightarrow> Some v)"
    by simp_all
  have "lookup (put_all ?t kvs) k' =
      (case map_of ((k, v) # kvs) k' of None \<Rightarrow> lookup t k' | Some v \<Rightarrow> Some v)" for k'
    using fresh by (simp add: IH(2) l split: option.splits)
  with IH(1) show ?case
    unfolding e step by (simp add: fun_eq_iff)
qed

lemma remove_all_correct:
  "table_inv t \<Longrightarrow>
     table_inv (remove_all t ks) \<and>
     lookup (remove_all t ks) = (\<lambda>k. if k \<in> set ks then None else lookup t k)"
proof (induction ks arbitrary: t)
  case Nil
  then show ?case by (simp add: remove_all_def)
next
  case (Cons k ks)
  let ?t = "snd (hashtable_remove t k)"
  have step: "remove_all t (k # ks) = remove_all ?t ks"
    by (simp add: remove_all_def)
  have inv: "table_inv ?t" and l: "lookup ?t = (lookup t)(k := None)"
    using remove_correct [OF Cons.prems] by simp_all
  from Cons.IH [OF inv] show ?case
    by (auto simp: step l fun_eq_iff)
qed

lemma get_lookup: "hashtable_get t k = (case lookup t k of None \<Rightarrow> NULL | Some v \<Rightarrow> v)"
  by (simp add: hashtable_get_def lookup_def)

lemma entries_card: "table_inv t \<Longrightarrow> hashtable_entries t = card (dom (lookup t))"
  by (simp add: table_inv_def hashtable_entries_def)

text \<open>
  Claim C3. In a table made by \<open>hashtable_create\<close>, after the insertion of any number
  of distinct keys (every allocation succeeding, so every put returns OK) and the removal
  of any keys, \<open>hashtable_get\<close> returns the stored value of every inserted key that was
  not removed and the null pointer for every removed one, and \<open>hashtable_entries\<close> is
  the number of surviving keys. The lists are arbitrary, so runs that grow the table are
  included (\<open>put_grows\<close>).
\<close>

theorem hashtable_put_remove_consistent:
  assumes "0 < g" and "distinct (map fst kvs)"
    and t_def: "t = remove_all (put_all (hashtable_create g ld salt n) kvs) rs"
  shows "(\<forall>(k, v) \<in> set kvs. hashtable_get t k = (if k \<in> set rs then NULL else v)) \<and>
    hashtable_entries t = card (fst ` set kvs - set rs)"
proof -
  let ?t0 = "hashtable_create g ld salt n"
  have inv1: "table_inv (put_all ?t0 kvs)"
    and l1: "lookup (put_all ?t0 kvs) = map_of kvs"
    using put_all_correct [OF table_inv_create [OF assms(1)] assms(2), of ld salt n]
    by (auto simp: lookup_create fun_eq_iff split: option.splits)
  from remove_all_correct [OF inv1, of rs]
  have inv2: "table_inv t"
    and l2: "lookup t = (\<lambda>k. if k \<in> set rs then None else map_of kvs k)"
    unfolding t_def l1 by simp_all
  have "hashtable_get t k = (if k \<in> set rs then NULL else v)" if "(k, v) \<in> set kvs" for k v
    using that assms(2) by (simp add: get_lookup l2)
  moreover have "dom (lookup t) = dom (map_of kvs) - set rs"
    by (auto simp: l2 domIff split: if_splits)
  then have "dom (lookup t) = fst ` set kvs - set rs"
    by (simp only: dom_map_of_conv_image_fst)
  ultimately show ?thesis
    using entries_card [OF inv2] by auto
qed

theorem hashtable_put_remove_consistent_witness:
  "hashtable_get (remove_all (put_all (hashtable_create 2 1 0 1)
       [(1, 16), (2, 32), (3, 48)]) [2]) 1 = 16 \<and>
   hashtable_get (remove_all (put_all (hashtable_create 2 1 0 1)
       [(1, 16), (2, 32), (3, 48)]) [2]) 2 = NULL \<and>
   hashtable_get (remove_all (put_all (hashtable_create 2 1 0 1)
       [(1, 16), (2, 32), (3, 48)]) [2]) 3 = 48 \<and>
   hashtable_entries (remove_all (put_all (hashtable_create 2 1 0 1)
       [(1, 16), (2, 32), (3, 48)]) [2]) = 2"
  using hashtable_put_remove_consistent [of 2 "[(1, 16), (2, 32), (3, 48)]" _ 1 0 1 "[2]", OF _ _ refl]
  by simp


text \<open>
  Claim C4. On a table that satisfies the invariant (every table made by create, put and
  remove does), \<open>hashtable_remove\<close> returns the value stored under the key and removes
  the entry: the key then reads as absent, the entry count drops by one, the other keys
  read as before. For an absent key it returns the null pointer and the table is the
  same table.
\<close>

theorem hashtable_remove_previous_or_sentinel:
  assumes "table_inv t" and "hashtable_remove t k = (r, t')"
  shows "(case lookup t k of
            None \<Rightarrow> r = NULL \<and> t' = t
          | Some v \<Rightarrow> r = v \<and> hashtable_entries t' = hashtable_entries t - 1) \<and>
         hashtable_get t' k = NULL \<and>
         (\<forall>k'. k' \<noteq> k \<longrightarrow> hashtable_get t' k' = hashtable_get t k') \<and>
         table_inv t'"
proof -
  have r: "r = (case lookup t k of None \<Rightarrow> NULL | Some v \<Rightarrow> v)"
    and inv: "table_inv t'" and l: "lookup t' = (lookup t)(k := None)"
    using remove_correct [OF assms(1), of k] assms(2) by simp_all
  have "t' = t" if "lookup t k = None"
    using that assms(2) by (simp add: hashtable_remove_def lookup_def)
  moreover have "hashtable_entries t' = hashtable_entries t - 1" if "lookup t k = Some v" for v
    using that assms(2) by (auto simp: hashtable_remove_def lookup_def Let_def hashtable_entries_def)
  ultimately show ?thesis
    using r inv by (auto simp: get_lookup l split: option.splits)
qed

theorem hashtable_remove_previous_or_sentinel_witness:
  "fst (hashtable_remove (snd (hashtable_put True (hashtable_create 2 2 0 2) 5 7)) 5) = 7 \<and>
   hashtable_get (snd (hashtable_remove
       (snd (hashtable_put True (hashtable_create 2 2 0 2) 5 7)) 5)) 5 = NULL \<and>
   hashtable_entries (snd (hashtable_remove
       (snd (hashtable_put True (hashtable_create 2 2 0 2) 5 7)) 5)) = 0 \<and>
   hashtable_remove (hashtable_create 2 2 0 2) 5 = (NULL, hashtable_create 2 2 0 2)"
proof -
  let ?t0 = "hashtable_create 2 2 0 2"
  let ?t1 = "snd (hashtable_put True ?t0 5 7)"
  have inv0: "table_inv ?t0" by (simp add: table_inv_create)
  have inv1: "table_inv ?t1" and l1: "lookup ?t1 5 = Some 7"
    using put_correct [OF inv0, of 5 7] by simp_all
  have "lookup ?t1 = (\<lambda>k. None)(5 \<mapsto> 7)"
    using put_correct(3) [OF inv0, of 5 7] by (simp add: lookup_create [abs_def])
  then have e1: "hashtable_entries ?t1 = 1"
    using entries_card [OF inv1] by simp
  have p0: "hashtable_remove ?t0 5 = (fst (hashtable_remove ?t0 5), snd (hashtable_remove ?t0 5))"
    and p1: "hashtable_remove ?t1 5 = (fst (hashtable_remove ?t1 5), snd (hashtable_remove ?t1 5))"
    by simp_all
  from hashtable_remove_previous_or_sentinel [OF inv1 p1]
  have a: "fst (hashtable_remove ?t1 5) = 7"
    "hashtable_get (snd (hashtable_remove ?t1 5)) 5 = NULL"
    "hashtable_entries (snd (hashtable_remove ?t1 5)) = 0"
    by (simp_all add: l1 e1)
  from hashtable_remove_previous_or_sentinel [OF inv0 p0]
  have "fst (hashtable_remove ?t0 5) = NULL" "snd (hashtable_remove ?t0 5) = ?t0"
    by (simp_all add: lookup_create)
  then have "hashtable_remove ?t0 5 = (NULL, ?t0)"
    by (simp add: prod_eq_iff)
  with a show ?thesis by simp
qed

section \<open>Properties of the tag engine\<close>

lemma in_delete_iff:
  "(cid', x) \<in> set (AList.delete cid ps) \<longleftrightarrow> (cid', x) \<in> set ps \<and> cid' \<noteq> cid"
  by (auto simp: AList.delete_eq)

lemma engine_invI:
  assumes "0 < next_handle s"
    and "\<And>h t. map_of (tags s) h = Some t \<Longrightarrow> 0 < h \<and> h < next_handle s"
    and "\<And>ep c cid h k. map_of (conns s) ep = Some c \<Longrightarrow> (cid, h, k) \<in> set (pending c) \<Longrightarrow>
      \<exists>t. map_of (tags s) h = Some t \<and> endpoint t = ep \<and> in_flight t = Some cid"
  shows "engine_inv s"
  using assms unfolding engine_inv_def by blast

lemma inv_handle:
  "engine_inv s \<Longrightarrow> map_of (tags s) h = Some t \<Longrightarrow> 0 < h \<and> h < next_handle s"
  unfolding engine_inv_def by blast

lemma inv_next: "engine_inv s \<Longrightarrow> 0 < next_handle s"
  unfolding engine_inv_def by blast

lemma inv_pending:
  "engine_inv s \<Longrightarrow> map_of (conns s) ep = Some c \<Longrightarrow> (cid, h, k) \<in> set (pending c) \<Longrightarrow>
     \<exists>t. map_of (tags s) h = Some t \<and> endpoint t = ep \<and> in_flight t = Some cid"
  unfolding engine_inv_def by blast

lemma inv_init: "engine_inv engine_init"
  by (simp add: engine_inv_def engine_init_def)

lemma attach_pending:
  assumes "map_of (attach ep h cs) ep' = Some c'" and "x \<in> set (pending c')"
  shows "\<exists>c. map_of cs ep' = Some c \<and> x \<in> set (pending c)"
  using assms
  by (auto simp: attach_def update_conv' split: option.splits if_splits)

lemma detach_pending:
  assumes "map_of (detach ep h cs) ep' = Some c'" and "x \<in> set (pending c')"
  shows "\<exists>c. map_of cs ep' = Some c \<and> x \<in> set (pending c)"
  using assms
  by (auto simp: detach_def update_conv' delete_conv' Let_def split: option.splits if_splits)

lemma cancel_pending:
  assumes "map_of (cancel ep cid cs) ep' = Some c'" and "(cid', x) \<in> set (pending c')"
  shows "\<exists>c. map_of cs ep' = Some c \<and> (cid', x) \<in> set (pending c) \<and> (ep' = ep \<longrightarrow> cid' \<noteq> cid)"
  using assms
  by (auto simp: cancel_def update_conv' in_delete_iff split: option.splits if_splits)


lemma inv_create:
  assumes "engine_inv s"
  shows "engine_inv (snd (plc_tag_create s a timeout w))"
proof -
  let ?h = "next_handle s"
  let ?t = "\<lparr> buffer = replicate (attr_size a) 0,
      tag_status = (if timeout = 0 then PLCTAG_STATUS_PENDING else PLCTAG_STATUS_OK),
      endpoint = attr_endpoint a, in_flight = None \<rparr>"
  let ?s' = "s\<lparr>tags := (?h, ?t) # tags s, conns := attach (attr_endpoint a) ?h (conns s),
      next_handle := ?h + 1\<rparr>"
  have fresh: "map_of (tags s) ?h = None"
    using inv_handle [OF assms, of ?h] by (cases "map_of (tags s) ?h") auto
  have "engine_inv ?s'"
  proof (rule engine_invI)
    show "0 < next_handle ?s'" using inv_next [OF assms] by simp
  next
    fix h t assume "map_of (tags ?s') h = Some t"
    then show "0 < h \<and> h < next_handle ?s'"
      using inv_handle [OF assms, of h t] inv_next [OF assms]
      by (cases "h = ?h") (auto split: if_splits)
  next
    fix ep c cid h k
    assume "map_of (conns ?s') ep = Some c" and "(cid, h, k) \<in> set (pending c)"
    then obtain c0 where "map_of (conns s) ep = Some c0" "(cid, h, k) \<in> set (pending c0)"
      using attach_pending [of "attr_endpoint a" ?h "conns s" ep c "(cid, h, k)"] by auto
    from inv_pending [OF assms this]
    obtain t where t: "map_of (tags s) h = Some t" "endpoint t = ep" "in_flight t = Some cid"
      by blast
    with fresh have "h \<noteq> ?h" by auto
    with t show "\<exists>t. map_of (tags ?s') h = Some t \<and> endpoint t = ep \<and> in_flight t = Some cid"
      by simp
  qed
  then show ?thesis
    using assms by (simp add: plc_tag_create_def Let_def)
qed

lemma inv_tag_update:
  assumes "engine_inv s" and "map_of (tags s) h = Some t"
    and "endpoint t' = endpoint t" and "in_flight t' = in_flight t"
  shows "engine_inv (s\<lparr>tags := AList.update h t' (tags s)\<rparr>)"
proof (rule engine_invI)
  show "0 < next_handle (s\<lparr>tags := AList.update h t' (tags s)\<rparr>)"
    using inv_next [OF assms(1)] by simp
next
  fix h' u assume "map_of (tags (s\<lparr>tags := AList.update h t' (tags s)\<rparr>)) h' = Some u"
  then show "0 < h' \<and> h' < next_handle (s\<lparr>tags := AList.update h t' (tags s)\<rparr>)"
    using inv_handle [OF assms(1), of h'] assms(2)
    by (cases "h' = h") (auto simp: update_conv')
next
  fix ep c cid h' k
  assume "map_of (conns (s\<lparr>tags := AList.update h t' (tags s)\<rparr>)) ep = Some c"
    and "(cid, h', k) \<in> set (pending c)"
  with inv_pending [OF assms(1), of ep c cid h' k]
  obtain u where "map_of (tags s) h' = Some u" "endpoint u = ep" "in_flight u = Some cid"
    by auto
  then show "\<exists>u. map_of (tags (s\<lparr>tags := AList.update h t' (tags s)\<rparr>)) h' = Some u \<and>
      endpoint u = ep \<and> in_flight u = Some cid"
    using assms(2-4) by (cases "h' = h") (auto simp: update_conv')
qed

lemma inv_connected: "engine_inv s \<Longrightarrow> engine_inv (connected s h)"
  by (auto simp: connected_def intro!: inv_tag_update split: option.splits)

text \<open>A tag whose request leaves the awaited ones may take any new state.\<close>

lemma inv_retire:
  assumes "engine_inv s" and "map_of (tags s) h = Some t" and "in_flight t = Some cid"
    and "endpoint t' = endpoint t" and "in_flight t' = None"
    and cs: "\<And>ep c cid' h' k. map_of cs ep = Some c \<Longrightarrow> (cid', h', k) \<in> set (pending c) \<Longrightarrow>
      \<exists>c0. map_of (conns s) ep = Some c0 \<and> (cid', h', k) \<in> set (pending c0) \<and>
        (ep = endpoint t \<longrightarrow> cid' \<noteq> cid)"
  shows "engine_inv (s\<lparr>tags := AList.update h t' (tags s), conns := cs\<rparr>)"
proof (rule engine_invI)
  show "0 < next_handle (s\<lparr>tags := AList.update h t' (tags s), conns := cs\<rparr>)"
    using inv_next [OF assms(1)] by simp
next
  fix h' u assume "map_of (tags (s\<lparr>tags := AList.update h t' (tags s), conns := cs\<rparr>)) h' = Some u"
  then show "0 < h' \<and> h' < next_handle (s\<lparr>tags := AList.update h t' (tags s), conns := cs\<rparr>)"
    using inv_handle [OF assms(1), of h'] assms(2)
    by (cases "h' = h") (auto simp: update_conv')
next
  fix ep c cid' h' k
  assume "map_of (conns (s\<lparr>tags := AList.update h t' (tags s), conns := cs\<rparr>)) ep = Some c"
    and "(cid', h', k) \<in> set (pending c)"
  then obtain c0 where c0: "map_of (conns s) ep = Some c0" "(cid', h', k) \<in> set (pending c0)"
    and ne: "ep = endpoint t \<longrightarrow> cid' \<noteq> cid"
    using cs [of ep c cid' h' k] by auto
  from inv_pending [OF assms(1) c0]
  obtain u where u: "map_of (tags s) h' = Some u" "endpoint u = ep" "in_flight u = Some cid'"
    by blast
  have "h' \<noteq> h"
  proof
    assume "h' = h"
    with u assms(2,3) have "ep = endpoint t" "cid' = cid" by auto
    with ne show False by simp
  qed
  with u show "\<exists>u. map_of (tags (s\<lparr>tags := AList.update h t' (tags s), conns := cs\<rparr>)) h' = Some u \<and>
      endpoint u = ep \<and> in_flight u = Some cid'"
    by (auto simp: update_conv')
qed

lemma inv_abort:
  assumes "engine_inv s"
  shows "engine_inv (snd (plc_tag_abort s h))"
proof (cases "map_of (tags s) h")
  case None
  with assms show ?thesis by (simp add: plc_tag_abort_def)
next
  case (Some t)
  show ?thesis
  proof (cases "in_flight t")
    case None
    with Some assms show ?thesis by (simp add: plc_tag_abort_def)
  next
    case (Some cid)
    have "engine_inv (s\<lparr>tags := AList.update h
        (t\<lparr>tag_status := PLCTAG_STATUS_OK, in_flight := None\<rparr>) (tags s),
        conns := cancel (endpoint t) cid (conns s)\<rparr>)"
      using assms \<open>map_of (tags s) h = Some t\<close> Some
      by (rule inv_retire) (auto dest: cancel_pending)
    with Some \<open>map_of (tags s) h = Some t\<close> show ?thesis
      by (simp add: plc_tag_abort_def)
  qed
qed


lemma apply_response_fields [simp]:
  "endpoint (apply_response kind r t) = endpoint t"
  "in_flight (apply_response kind r t) = None"
  by (simp_all add: apply_response_def split: response.splits op_kind.splits)

lemma inv_request:
  assumes "engine_inv s"
  shows "engine_inv (snd (plc_tag_request kind s h timeout resp))"
proof (cases "map_of (tags s) h")
  case None
  with assms show ?thesis by (simp add: plc_tag_request_def)
next
  case (Some t)
  note t = Some
  show ?thesis
  proof (cases "in_flight t = None \<and> map_of (conns s) (endpoint t) \<noteq> None")
    case False
    with t assms show ?thesis
      by (auto simp: plc_tag_request_def split: option.splits)
  next
    case True
    then obtain c where idle: "in_flight t = None" and c: "map_of (conns s) (endpoint t) = Some c"
      by auto
    have other: "h' \<noteq> h" if "map_of (tags s) h' = Some u" "in_flight u = Some cid" for h' u cid
      using that t idle by auto
    show ?thesis
    proof (cases "if timeout = 0 then None else resp")
      case None
      let ?t' = "t\<lparr>tag_status := PLCTAG_STATUS_PENDING, in_flight := Some (next_corr c)\<rparr>"
      let ?c' = "c\<lparr>next_corr := next_corr c + 1, pending := pending c @ [(next_corr c, h, kind)]\<rparr>"
      let ?s' = "s\<lparr>tags := AList.update h ?t' (tags s),
          conns := AList.update (endpoint t) ?c' (conns s)\<rparr>"
      have "engine_inv ?s'"
      proof (rule engine_invI)
        show "0 < next_handle ?s'" using inv_next [OF assms] by simp
      next
        fix h' u assume "map_of (tags ?s') h' = Some u"
        then show "0 < h' \<and> h' < next_handle ?s'"
          using inv_handle [OF assms, of h'] t
          by (cases "h' = h") (auto simp: update_conv')
      next
        fix ep c1 cid h' k
        assume c1: "map_of (conns ?s') ep = Some c1" and e: "(cid, h', k) \<in> set (pending c1)"
        show "\<exists>u. map_of (tags ?s') h' = Some u \<and> endpoint u = ep \<and> in_flight u = Some cid"
        proof (cases "ep = endpoint t \<and> (cid, h', k) = (next_corr c, h, kind)")
          case True
          then show ?thesis by (simp add: update_conv')
        next
          case False
          with c1 e c have "\<exists>c0. map_of (conns s) ep = Some c0 \<and> (cid, h', k) \<in> set (pending c0)"
            by (cases "ep = endpoint t") (auto simp: update_conv')
          then obtain c0 where "map_of (conns s) ep = Some c0" "(cid, h', k) \<in> set (pending c0)"
            by blast
          from inv_pending [OF assms this]
          obtain u where u: "map_of (tags s) h' = Some u" "endpoint u = ep" "in_flight u = Some cid"
            by blast
          with other [OF u(1,3)] show ?thesis
            by (simp add: update_conv')
        qed
      qed
      with t idle c None show ?thesis
        by (simp add: plc_tag_request_def)
    next
      case (Some r)
      let ?s' = "s\<lparr>tags := AList.update h (apply_response kind r t) (tags s),
          conns := AList.update (endpoint t) (c\<lparr>next_corr := next_corr c + 1\<rparr>) (conns s)\<rparr>"
      have "engine_inv ?s'"
      proof (rule engine_invI)
        show "0 < next_handle ?s'" using inv_next [OF assms] by simp
      next
        fix h' u assume "map_of (tags ?s') h' = Some u"
        then show "0 < h' \<and> h' < next_handle ?s'"
          using inv_handle [OF assms, of h'] t
          by (cases "h' = h") (auto simp: update_conv')
      next
        fix ep c1 cid h' k
        assume c1: "map_of (conns ?s') ep = Some c1" and e: "(cid, h', k) \<in> set (pending c1)"
        with c have "\<exists>c0. map_of (conns s) ep = Some c0 \<and> (cid, h', k) \<in> set (pending c0)"
          by (cases "ep = endpoint t") (auto simp: update_conv')
        then obtain c0 where "map_of (conns s) ep = Some c0" "(cid, h', k) \<in> set (pending c0)"
          by blast
        from inv_pending [OF assms this]
        obtain u where u: "map_of (tags s) h' = Some u" "endpoint u = ep" "in_flight u = Some cid"
          by blast
        with other [OF u(1,3)]
        show "\<exists>u. map_of (tags ?s') h' = Some u \<and> endpoint u = ep \<and> in_flight u = Some cid"
          by (simp add: update_conv')
      qed
      with t idle c Some show ?thesis
        by (simp add: plc_tag_request_def)
    qed
  qed
qed

lemma inv_destroy:
  assumes "engine_inv s"
  shows "engine_inv (snd (plc_tag_destroy s h))"
proof (cases "map_of (tags s) h")
  case None
  with assms show ?thesis by (simp add: plc_tag_destroy_def)
next
  case (Some t)
  define cs where "cs = (case in_flight t of None \<Rightarrow> conns s
    | Some cid \<Rightarrow> cancel (endpoint t) cid (conns s))"
  let ?s' = "s\<lparr>tags := AList.delete h (tags s), conns := detach (endpoint t) h cs\<rparr>"
  have cs: "\<exists>c0. map_of (conns s) ep = Some c0 \<and> (cid', x) \<in> set (pending c0) \<and>
      (ep = endpoint t \<longrightarrow> in_flight t \<noteq> Some cid')"
    if "map_of cs ep = Some c" "(cid', x) \<in> set (pending c)" for ep c cid' x
    using that cancel_pending [of "endpoint t" _ "conns s" ep c cid' x]
    by (cases "in_flight t") (auto simp: cs_def)
  have "engine_inv ?s'"
  proof (rule engine_invI)
    show "0 < next_handle ?s'" using inv_next [OF assms] by simp
  next
    fix h' u assume "map_of (tags ?s') h' = Some u"
    then show "0 < h' \<and> h' < next_handle ?s'"
      using inv_handle [OF assms, of h' u]
      by (cases "h' = h") (auto simp: delete_conv')
  next
    fix ep c cid' h' k
    assume "map_of (conns ?s') ep = Some c" and e: "(cid', h', k) \<in> set (pending c)"
    then obtain c1 where "map_of cs ep = Some c1" "(cid', h', k) \<in> set (pending c1)"
      using detach_pending [of "endpoint t" h cs ep c "(cid', h', k)"] by auto
    from cs [OF this] obtain c0 where c0: "map_of (conns s) ep = Some c0"
      "(cid', h', k) \<in> set (pending c0)" and ne: "ep = endpoint t \<longrightarrow> in_flight t \<noteq> Some cid'"
      by blast
    from inv_pending [OF assms c0]
    obtain u where u: "map_of (tags s) h' = Some u" "endpoint u = ep" "in_flight u = Some cid'"
      by blast
    have "h' \<noteq> h"
      using u ne Some by auto
    with u show "\<exists>u. map_of (tags ?s') h' = Some u \<and> endpoint u = ep \<and> in_flight u = Some cid'"
      by (simp add: delete_conv')
  qed
  with Some show ?thesis
    by (simp add: plc_tag_destroy_def cs_def Let_def)
qed

lemma inv_deliver:
  assumes "engine_inv s"
  shows "\<exists>s'. deliver s ep cid r = Some s' \<and> engine_inv s'"
proof (cases "map_of (conns s) ep")
  case None
  with assms show ?thesis by (simp add: deliver_def)
next
  case (Some c)
  note c = Some
  show ?thesis
  proof (cases "map_of (pending c) cid")
    case None
    with c assms show ?thesis by (simp add: deliver_def)
  next
    case (Some hk)
    obtain h kind where hk: "hk = (h, kind)" by (cases hk)
    from Some have "(cid, h, kind) \<in> set (pending c)"
      unfolding hk by (rule map_of_SomeD)
    from inv_pending [OF assms c this]
    obtain t where t: "map_of (tags s) h = Some t" "endpoint t = ep" "in_flight t = Some cid"
      by blast
    let ?cs = "AList.update ep (c\<lparr>pending := AList.delete cid (pending c)\<rparr>) (conns s)"
    have "engine_inv (s\<lparr>tags := AList.update h (apply_response kind r t) (tags s), conns := ?cs\<rparr>)"
      using assms t(1,3)
    proof (rule inv_retire)
      fix ep' c' cid' h' k
      assume "map_of ?cs ep' = Some c'" "(cid', h', k) \<in> set (pending c')"
      then show "\<exists>c0. map_of (conns s) ep' = Some c0 \<and> (cid', h', k) \<in> set (pending c0) \<and>
          (ep' = endpoint t \<longrightarrow> cid' \<noteq> cid)"
        using c t(2) by (cases "ep' = ep") (auto simp: update_conv' in_delete_iff)
    qed simp_all
    with c Some t(1) show ?thesis
      by (simp add: deliver_def hk)
  qed
qed

lemma step_safe:
  assumes "engine_inv s"
  shows "\<exists>s'. step s e = Some s' \<and> engine_inv s'"
  using assms
  by (cases e) (simp_all add: inv_create inv_request inv_abort inv_destroy inv_deliver inv_connected)

lemma run_safe:
  "engine_inv s \<Longrightarrow> \<exists>s'. run s es = Some s' \<and> engine_inv s'"
proof (induction es arbitrary: s)
  case Nil
  then show ?case by simp
next
  case (Cons e es)
  from step_safe [OF Cons.prems, of e]
  obtain s1 where "step s e = Some s1" "engine_inv s1" by blast
  with Cons.IH [of s1] show ?case by simp
qed

lemma reachable_inv: "run engine_init evs = Some s \<Longrightarrow> engine_inv s"
  using run_safe [OF inv_init, of evs] by auto


lemma busy_engine_eq:
  "busy_engine =
     \<lparr> tags = [(1, \<lparr> buffer = [0, 0, 0, 0], tag_status = PLCTAG_STATUS_PENDING,
                      endpoint = ''ab_eip 10.206.1.39 1,0'', in_flight = Some 0 \<rparr>)],
       conns = [(''ab_eip 10.206.1.39 1,0'',
                 \<lparr> next_corr = 1, users = [1], pending = [(0, 1, OpRead)] \<rparr>)],
       next_handle = 2 \<rparr>"
  by (simp add: busy_engine_def plc_tag_read_def plc_tag_request_def plc_tag_create_def
      engine_init_def TAG_PATH_def attach_def Let_def eval_nat_numeral)


lemma error_negative: "is_error e \<longleftrightarrow> status_code e < 0"
  by (cases e) (simp_all add: is_error_def)

text \<open>
  Claim C5. A read on a tag that has a request outstanding returns the not-ready error
  code, with or without a timeout and whatever arrives meanwhile, and leaves the whole
  engine state as it was: the tag, its outstanding request and the requests the
  connection awaits.
\<close>

theorem read_outstanding_not_ready:
  assumes "map_of (tags s) h = Some t" and "in_flight t \<noteq> None"
  shows "plc_tag_read s h timeout resp = (status_code ErrNotReady, s) \<and> is_error ErrNotReady"
  using assms by (simp add: plc_tag_read_def plc_tag_request_def is_error_def)

theorem read_outstanding_not_ready_witness:
  "plc_tag_read busy_engine 1 0 None = (status_code ErrNotReady, busy_engine) \<and>
   plc_tag_read busy_engine 1 1500 (Some (Reply [1, 2, 3, 4])) =
     (status_code ErrNotReady, busy_engine)"
proof -
  have t: "map_of (tags busy_engine) 1 = Some \<lparr> buffer = [0, 0, 0, 0],
      tag_status = PLCTAG_STATUS_PENDING, endpoint = ''ab_eip 10.206.1.39 1,0'',
      in_flight = Some 0 \<rparr>"
    by (simp add: busy_engine_eq)
  show ?thesis
    using read_outstanding_not_ready [OF t, of 0 None]
      read_outstanding_not_ready [OF t, of 1500 "Some (Reply [1, 2, 3, 4])"]
    by simp
qed

lemma step_keeps_tag:
  assumes "map_of (tags s) h \<noteq> None" and "step s e = Some s'" and "e \<noteq> Destroy h"
  shows "map_of (tags s') h \<noteq> None"
proof (cases e)
  case (Create a timeout w)
  with assms show ?thesis
    by (auto simp: plc_tag_create_def Let_def split: if_splits)
next
  case (Request kind h' timeout resp)
  with assms show ?thesis
    by (auto simp: plc_tag_request_def update_conv' split: option.splits if_splits)
next
  case (Abort h')
  with assms show ?thesis
    by (auto simp: plc_tag_abort_def update_conv' split: option.splits)
next
  case (Destroy h')
  with assms show ?thesis
    by (auto simp: plc_tag_destroy_def delete_conv' Let_def split: option.splits)
next
  case (Deliver ep cid r)
  with assms show ?thesis
    by (auto simp: deliver_def update_conv' split: option.splits)
next
  case (Connected h')
  with assms show ?thesis
    by (auto simp: connected_def update_conv' split: option.splits if_splits)
qed

lemma run_keeps_tag:
  "map_of (tags s) h \<noteq> None \<Longrightarrow> run s es = Some s' \<Longrightarrow> Destroy h \<notin> set es \<Longrightarrow>
     map_of (tags s') h \<noteq> None"
proof (induction es arbitrary: s)
  case Nil
  then show ?case by simp
next
  case (Cons e es)
  from Cons.prems(2) obtain s1 where s1: "step s e = Some s1" "run s1 es = Some s'"
    by (auto split: option.splits)
  from Cons.prems(3) have "e \<noteq> Destroy h" "Destroy h \<notin> set es" by auto
  from step_keeps_tag [OF Cons.prems(1) s1(1) this(1)] s1(2) this(2) show ?case
    by (rule Cons.IH)
qed

lemma create_result:
  assumes "run engine_init evs = Some s" and "plc_tag_create s a timeout w = (r, s')"
  shows "(if 0 \<le> r
          then map_of (tags s) r = None \<and> map_of (tags s') r \<noteq> None \<and>
            (\<forall>es s''. run s' es = Some s'' \<and> Destroy r \<notin> set es \<longrightarrow> map_of (tags s'') r \<noteq> None)
          else (\<exists>e. is_error e \<and> r = status_code e) \<and> s' = s) \<and>
         (\<forall>h. h < 0 \<longrightarrow> map_of (tags s') h = None)"
proof -
  have inv: "engine_inv s" using assms(1) by (rule reachable_inv)
  have inv': "engine_inv s'"
    using inv_create [OF inv, of a timeout w] assms(2) by simp
  have neg: "map_of (tags s') h = None" if "h < 0" for h
    using inv_handle [OF inv', of h] that by (cases "map_of (tags s') h") auto
  have fresh: "map_of (tags s) (next_handle s) = None"
    using inv_handle [OF inv, of "next_handle s"] by (cases "map_of (tags s) (next_handle s)") auto
  show ?thesis
  proof (cases "attr_elem_size a * attr_elem_count a = attr_size a \<and>
      (timeout = 0 \<or> w = PLCTAG_STATUS_OK)")
    case True
    with assms(2) have r: "r = next_handle s" and live: "map_of (tags s') r \<noteq> None"
      by (auto simp: plc_tag_create_def Let_def)
    have "0 \<le> r" using inv_next [OF inv] r by simp
    moreover have "map_of (tags s'') r \<noteq> None"
      if "run s' es = Some s''" "Destroy r \<notin> set es" for es s''
      using live that by (rule run_keeps_tag)
    ultimately show ?thesis
      using fresh r live neg by auto
  next
    case False
    with assms(2) have "s' = s" and "\<exists>e. is_error e \<and> r = status_code e"
      by (auto simp: plc_tag_create_def Let_def is_error_def split: if_splits
          intro: exI [of _ ErrBadConfig] exI [of _ PLCTAG_ERR_TIMEOUT])
    moreover from this have "r < 0" by (auto simp: error_negative)
    ultimately show ?thesis using neg by auto
  qed
qed




lemma open_tag_sign:
  assumes "run engine_init evs = Some s" and "open_tag s a w = (r, s')"
  shows "if 0 \<le> r then map_of (tags s) r = None \<and> map_of (tags s') r \<noteq> None
         else r < 0 \<and> s' = s"
proof (cases "plc_tag_create s a DATA_TIMEOUT w")
  case (Pair tag s1)
  note sign = create_result [OF assms(1) Pair]
  show ?thesis
  proof (cases "0 \<le> tag")
    case True
    with Pair have "w = PLCTAG_STATUS_OK"
      using error_negative [of w] error_negative [of ErrBadConfig]
        error_negative [of PLCTAG_ERR_TIMEOUT]
      by (auto simp: plc_tag_create_def Let_def DATA_TIMEOUT_def is_error_def
          split: if_splits)
    with Pair True have "plc_tag_status s1 tag = status_code PLCTAG_STATUS_OK"
      by (auto simp: plc_tag_create_def Let_def DATA_TIMEOUT_def plc_tag_status_def split: if_splits)
    with Pair True assms(2) have "r = tag" "s' = s1"
      by (simp_all add: open_tag_def)
    with sign True show ?thesis by simp
  next
    case False
    with Pair assms(2) have "r = status_code PLCTAG_ERR_CREATE" "s' = s1"
      by (simp_all add: open_tag_def)
    with sign False show ?thesis by simp
  qed
qed







end
